theory Spec2Isabelle
  imports Main "HOL-Library.AList"
begin

section \<open>Python values used by the parser\<close>

text \<open>
  A Python \<open>dict\<close> keeps its keys in insertion order and \<open>d[k] = v\<close> on a key that
  is already present replaces the value where the key stands. That is what
  \<open>AList.update\<close> does on an association list, so a dict is an association list
  that is only changed through \<open>AList.update\<close>.
\<close>

type_synonym ('k, 'v) dict = "('k \<times> 'v) list"

text \<open>\<open>d.update(**attr)\<close>: the keyword arguments are stored one after the other.\<close>

definition dict_update :: "('k, 'v) dict \<Rightarrow> ('k \<times> 'v) list \<Rightarrow> ('k, 'v) dict" where
  "dict_update d attr = fold (\<lambda>kv. AList.update (fst kv) (snd kv)) attr d"

text \<open>\<open>s.endswith(suf)\<close>.\<close>

definition endswith :: "string \<Rightarrow> string \<Rightarrow> bool" where
  "endswith s suf = (take (length suf) (rev s) = rev suf)"

text \<open>\<open>os.path.basename(p)\<close> on a POSIX path: what follows the last slash.\<close>

definition basename :: "string \<Rightarrow> string" where
  "basename p = rev (takeWhile (\<lambda>c. c \<noteq> CHR ''/'') (rev p))"

text \<open>\<open>s.split(".")[0]\<close>: the text before the first dot.\<close>

definition split_dot_0 :: "string \<Rightarrow> string" where
  "split_dot_0 s = takeWhile (\<lambda>c. c \<noteq> CHR ''.'') s"

text \<open>\<open>a or b\<close> for an optional string \<open>a\<close>: \<open>None\<close> and \<open>""\<close> are falsy.\<close>

definition str_or :: "string option \<Rightarrow> string \<Rightarrow> string" where
  "str_or a b = (case a of None \<Rightarrow> b | Some s \<Rightarrow> if s = [] then b else s)"

text \<open>
  \<open>os.path.relpath(os.path.join(root, fname), repo_path)\<close>, where \<open>root\<close> is a
  directory that \<open>os.walk\<close> reached below \<open>repo_path\<close>; the directory is given
  by its path below the repository, empty for the repository itself.
\<close>

definition relpath :: "string \<Rightarrow> string \<Rightarrow> string" where
  "relpath root fname = (if root = [] then fname else root @ ''/'' @ fname)"

section \<open>Syntax trees\<close>

text \<open>
  The nodes of a Python syntax tree that the parser tells apart. A function or class
  definition carries what the parser reads from it: its name, for a function
  \<open>[a.arg for a in args.args]\<close>, the attributes \<open>lineno\<close> and \<open>end_lineno\<close>
  (\<open>None\<close> where the attribute is missing, which is what \<open>getattr\<close> with a default
  asks), the value of \<open>ast.get_docstring\<close>, and its child nodes. Every other kind
  of node is \<open>Other\<close> with its children.
\<close>

datatype import_alias = Alias (alias_name: string) (alias_asname: "string option")

datatype ast =
    FunctionDef string "string list" "int option" "int option" "string option" "ast list"
  | ClassDef string "int option" "int option" "string option" "ast list"
  | Import "import_alias list"
  | ImportFrom "string option" "import_alias list"
  | Call ast "ast list"
  | Name string
  | Other "ast list"

fun getattr_lineno :: "ast \<Rightarrow> int \<Rightarrow> int" where
  "getattr_lineno (FunctionDef n ps l e d cs) dflt = (case l of None \<Rightarrow> dflt | Some i \<Rightarrow> i)"
| "getattr_lineno (ClassDef n l e d cs) dflt = (case l of None \<Rightarrow> dflt | Some i \<Rightarrow> i)"
| "getattr_lineno _ dflt = dflt"

fun getattr_end_lineno :: "ast \<Rightarrow> int \<Rightarrow> int" where
  "getattr_end_lineno (FunctionDef n ps l e d cs) dflt = (case e of None \<Rightarrow> dflt | Some i \<Rightarrow> i)"
| "getattr_end_lineno (ClassDef n l e d cs) dflt = (case e of None \<Rightarrow> dflt | Some i \<Rightarrow> i)"
| "getattr_end_lineno _ dflt = dflt"

fun get_docstring :: "ast \<Rightarrow> string option" where
  "get_docstring (FunctionDef n ps l e d cs) = d"
| "get_docstring (ClassDef n l e d cs) = d"
| "get_docstring _ = None"

fun args_args :: "ast \<Rightarrow> string list" where
  "args_args (FunctionDef n ps l e d cs) = ps"
| "args_args _ = []"

fun iter_child_nodes :: "ast \<Rightarrow> ast list" where
  "iter_child_nodes (FunctionDef n ps l e d cs) = cs"
| "iter_child_nodes (ClassDef n l e d cs) = cs"
| "iter_child_nodes (Import names) = []"
| "iter_child_nodes (ImportFrom m names) = []"
| "iter_child_nodes (Call f args) = f # args"
| "iter_child_nodes (Name x) = []"
| "iter_child_nodes (Other cs) = cs"

text \<open>
  \<open>ast.walk(node)\<close>: the node and all its descendants, breadth first. The library
  keeps a queue \<open>todo\<close> that starts as \<open>[node]\<close>; as long as it is not empty it takes
  the node at the front, appends the children of that node at the back
  (\<open>todo.extend(iter_child_nodes(node))\<close>) and yields the node. \<open>walk_todo\<close> is that
  loop on the queue; it ends because every step takes one node out of the trees that
  are still to be visited.
\<close>

function walk_todo :: "ast list \<Rightarrow> ast list" where
  "walk_todo [] = []"
| "walk_todo (node # todo) = node # walk_todo (todo @ iter_child_nodes node)"
  by pat_completeness auto
termination
proof (relation "measure (size_list size)")
  show "wf (measure (size_list size))" by simp
next
  fix node :: ast and todo :: "ast list"
  have "size_list size (iter_child_nodes node) \<le> size node"
    by (cases node) simp_all
  then show "(todo @ iter_child_nodes node, node # todo) \<in> measure (size_list size)"
    by simp
qed

definition walk_ast :: "ast \<Rightarrow> ast list" where
  "walk_ast node = walk_todo [node]"

section \<open>The per-file record\<close>

record parsed_file =
  pf_path :: string
  pf_ast_tree :: "ast list"
  pf_functions :: "(string, ast) dict"
  pf_classes :: "(string, ast) dict"
  pf_imports :: "(string, string) dict"
  pf_from_imports :: "(string, string) dict"

text \<open>One iteration of \<open>for alias in stmt.names\<close> of a plain import.\<close>

definition index_import_alias :: "import_alias \<Rightarrow> (string, string) dict \<Rightarrow> (string, string) dict" where
  "index_import_alias al im =
     (let modl = split_dot_0 (alias_name al);
          asname = str_or (alias_asname al) modl
      in AList.update asname modl im)"

text \<open>One iteration of \<open>for alias in stmt.names\<close> of a from-import of module \<open>modl\<close>.\<close>

definition index_from_alias :: "string \<Rightarrow> import_alias \<Rightarrow> (string, string) dict \<Rightarrow> (string, string) dict" where
  "index_from_alias modl al fi =
     (let asname = str_or (alias_asname al) (alias_name al)
      in AList.update asname modl fi)"

text \<open>The body of \<open>for stmt in tree.body\<close> in \<open>_index_files\<close>.\<close>

fun index_stmt :: "ast \<Rightarrow> parsed_file \<Rightarrow> parsed_file" where
  "index_stmt (FunctionDef n ps l e d cs) pf =
     pf\<lparr>pf_functions := AList.update n (FunctionDef n ps l e d cs) (pf_functions pf)\<rparr>"
| "index_stmt (ClassDef n l e d cs) pf =
     pf\<lparr>pf_classes := AList.update n (ClassDef n l e d cs) (pf_classes pf)\<rparr>"
| "index_stmt (Import names) pf =
     pf\<lparr>pf_imports := fold index_import_alias names (pf_imports pf)\<rparr>"
| "index_stmt (ImportFrom module names) pf =
     (case module of
        None \<Rightarrow> pf
      | Some m \<Rightarrow>
          if m = [] then pf
          else pf\<lparr>pf_from_imports := fold (index_from_alias (split_dot_0 m)) names (pf_from_imports pf)\<rparr>)"
| "index_stmt _ pf = pf"

definition index_body :: "string \<Rightarrow> ast list \<Rightarrow> parsed_file" where
  "index_body rel_path body =
     fold index_stmt body
       \<lparr>pf_path = rel_path, pf_ast_tree = body, pf_functions = [], pf_classes = [],
        pf_imports = [], pf_from_imports = []\<rparr>"

section \<open>The graph\<close>

text \<open>
  A \<open>networkx.DiGraph\<close>: a dict from node to its attribute dict and, for every ordered
  pair of nodes, at most one edge with its attribute dict. \<open>add_node\<close> on a node that
  exists updates its attributes, \<open>add_edge\<close> creates the end points that are missing
  with no attributes and updates the attributes of an edge that exists.
\<close>

datatype attr_val = AStr string | AInt int | AStrs "string list"

type_synonym attrs = "(string, attr_val) dict"

record graph =
  nodes :: "(string, attrs) dict"
  edges :: "(string \<times> string, attrs) dict"

definition empty_graph :: graph where
  "empty_graph = \<lparr>nodes = [], edges = []\<rparr>"

definition add_node :: "string \<Rightarrow> (string \<times> attr_val) list \<Rightarrow> graph \<Rightarrow> graph" where
  "add_node n attr g =
     (case map_of (nodes g) n of
        None \<Rightarrow> g\<lparr>nodes := nodes g @ [(n, dict_update [] attr)]\<rparr>
      | Some d \<Rightarrow> g\<lparr>nodes := AList.update n (dict_update d attr) (nodes g)\<rparr>)"

definition ensure_node :: "string \<Rightarrow> graph \<Rightarrow> graph" where
  "ensure_node n g =
     (if map_of (nodes g) n = None then g\<lparr>nodes := nodes g @ [(n, [])]\<rparr> else g)"

definition add_edge :: "string \<Rightarrow> string \<Rightarrow> (string \<times> attr_val) list \<Rightarrow> graph \<Rightarrow> graph" where
  "add_edge u v attr g =
     (let g' = ensure_node v (ensure_node u g);
          datadict = (case map_of (edges g') (u, v) of None \<Rightarrow> [] | Some d \<Rightarrow> d)
      in g'\<lparr>edges := AList.update (u, v) (dict_update datadict attr) (edges g')\<rparr>)"

text \<open>
  Every pass of the parser changes the graph through \<open>add_node\<close> and \<open>add_edge\<close>
  only. A pass is modelled by the calls it makes, in program order; \<open>run\<close> makes them.
\<close>

datatype graph_op =
    AddNode string "(string \<times> attr_val) list"
  | AddEdge string string "(string \<times> attr_val) list"

fun apply_op :: "graph \<Rightarrow> graph_op \<Rightarrow> graph" where
  "apply_op g (AddNode n attr) = add_node n attr g"
| "apply_op g (AddEdge u v attr) = add_edge u v attr g"

definition run :: "graph_op list \<Rightarrow> graph \<Rightarrow> graph" where
  "run ops g = foldl apply_op g ops"

section \<open>The parser\<close>

text \<open>
  \<open>os.walk\<close> is given by what it yields: the directories in the order it visits
  them, each with its file names. Reading and parsing a file is the function
  \<open>fs\<close>: \<open>None\<close> where \<open>open\<close>, \<open>read\<close> or \<open>ast.parse\<close> raise, otherwise
  \<open>tree.body\<close>.
\<close>

type_synonym walk = "(string \<times> string list) list"

definition py_files :: "walk \<Rightarrow> string list" where
  "py_files w =
     concat (map (\<lambda>(root, files).
       map (relpath root) (filter (\<lambda>fname. endswith fname ''.py'') files)) w)"

definition collect_files :: "walk \<Rightarrow> graph_op list" where
  "collect_files w =
     map (\<lambda>rel. AddNode rel [(''type'', AStr ''file''), (''display_name'', AStr rel)])
       (py_files w)"

fun index_files ::
  "(string \<Rightarrow> ast list option) \<Rightarrow> (string \<times> attrs) list \<Rightarrow>
   (string, parsed_file) dict \<Rightarrow> (string, parsed_file) dict" where
  "index_files fs [] files = files"
| "index_files fs ((node_id, a) # rest) files =
     (if map_of a ''type'' \<noteq> Some (AStr ''file'') then index_files fs rest files
      else case fs node_id of
             None \<Rightarrow> index_files fs rest files
           | Some body \<Rightarrow>
               index_files fs rest (AList.update node_id (index_body node_id body) files))"

definition class_ops :: "string \<Rightarrow> string \<times> ast \<Rightarrow> graph_op list" where
  "class_ops rel_path c =
     (let cname = fst c; cnode = snd c;
          cid = rel_path @ ''::'' @ cname;
          start = getattr_lineno cnode 0;
          endl = getattr_end_lineno cnode start;
          loc = max 0 (endl - start + 1)
      in [AddNode cid
            [(''type'', AStr ''class''), (''display_name'', AStr cname),
             (''file'', AStr rel_path), (''lineno'', AInt start),
             (''end_lineno'', AInt endl), (''loc'', AInt loc),
             (''doc'', AStr (str_or (get_docstring cnode) ''''))],
          AddEdge rel_path cid [(''label'', AStr ''defined_in'')]])"

definition function_ops :: "string \<Rightarrow> string \<times> ast \<Rightarrow> graph_op list" where
  "function_ops rel_path f =
     (let fname = fst f; fnode = snd f;
          fid = rel_path @ ''::'' @ fname;
          start = getattr_lineno fnode 0;
          endl = getattr_end_lineno fnode start;
          loc = max 0 (endl - start + 1);
          params = args_args fnode
      in [AddNode fid
            [(''type'', AStr ''function''), (''display_name'', AStr (fname @ ''()'')),
             (''file'', AStr rel_path), (''lineno'', AInt start),
             (''end_lineno'', AInt endl), (''loc'', AInt loc),
             (''params'', AStrs params),
             (''doc'', AStr (str_or (get_docstring fnode) ''''))],
          AddEdge rel_path fid [(''label'', AStr ''defined_in'')]])"

text \<open>
  The inner loop over \<open>self.files.keys()\<close>: the first key whose basename is the
  candidate gets the edge, and the \<open>break\<close> ends the search.
\<close>

definition import_ops :: "string list \<Rightarrow> string \<Rightarrow> string \<Rightarrow> graph_op list" where
  "import_ops keys rel_path module_name =
     (let candidate = module_name @ ''.py''
      in case find (\<lambda>other_path. basename other_path = candidate) keys of
           None \<Rightarrow> []
         | Some other_path \<Rightarrow> [AddEdge rel_path other_path [(''label'', AStr ''file_import'')]])"

definition module_names :: "parsed_file \<Rightarrow> string list" where
  "module_names pfile = map snd (pf_imports pfile) @ map snd (pf_from_imports pfile)"

definition file_ops :: "(string, parsed_file) dict \<Rightarrow> string \<times> parsed_file \<Rightarrow> graph_op list" where
  "file_ops files f =
     (let rel_path = fst f; pfile = snd f
      in concat (map (class_ops rel_path) (pf_classes pfile)) @
         concat (map (function_ops rel_path) (pf_functions pfile)) @
         concat (map (import_ops (map fst files) rel_path) (module_names pfile)))"

definition add_nodes_and_edges :: "(string, parsed_file) dict \<Rightarrow> graph_op list" where
  "add_nodes_and_edges files = concat (map (file_ops files) files)"

text \<open>The body of \<open>for sub in ast.walk(fnode)\<close>.\<close>

fun call_ops :: "string \<Rightarrow> (string, ast) dict \<Rightarrow> string \<Rightarrow> ast \<Rightarrow> graph_op list" where
  "call_ops rel_path local_functions caller_id (Call (Name target_name) args) =
     (if target_name \<in> set (map fst local_functions)
      then [AddEdge caller_id (rel_path @ ''::'' @ target_name) [(''label'', AStr ''calls'')]]
      else [])"
| "call_ops rel_path local_functions caller_id _ = []"

definition function_call_ops :: "string \<Rightarrow> (string, ast) dict \<Rightarrow> string \<times> ast \<Rightarrow> graph_op list" where
  "function_call_ops rel_path local_functions f =
     (let fname = fst f; fnode = snd f;
          caller_id = rel_path @ ''::'' @ fname
      in concat (map (call_ops rel_path local_functions caller_id) (walk_ast fnode)))"

definition file_call_ops :: "string \<times> parsed_file \<Rightarrow> graph_op list" where
  "file_call_ops f =
     (let rel_path = fst f; local_functions = pf_functions (snd f)
      in concat (map (function_call_ops rel_path local_functions) local_functions))"

definition resolve_calls_basic :: "(string, parsed_file) dict \<Rightarrow> graph_op list" where
  "resolve_calls_basic files = concat (map file_call_ops files)"

text \<open>\<open>CodeParser.parse\<close>: the four passes on a fresh graph and a fresh \<open>files\<close>.\<close>

definition parsed_files :: "walk \<Rightarrow> (string \<Rightarrow> ast list option) \<Rightarrow> (string, parsed_file) dict" where
  "parsed_files w fs = index_files fs (nodes (run (collect_files w) empty_graph)) []"

definition parse :: "walk \<Rightarrow> (string \<Rightarrow> ast list option) \<Rightarrow> graph" where
  "parse w fs =
     (let g0 = run (collect_files w) empty_graph;
          files = index_files fs (nodes g0) [];
          g1 = run (add_nodes_and_edges files) g0;
          g2 = run (resolve_calls_basic files) g1
      in g2)"

text \<open>All calls that one \<open>parse\<close> makes on the graph, in the order it makes them.\<close>

definition parse_ops :: "walk \<Rightarrow> (string \<Rightarrow> ast list option) \<Rightarrow> graph_op list" where
  "parse_ops w fs =
     collect_files w @ add_nodes_and_edges (parsed_files w fs) @
     resolve_calls_basic (parsed_files w fs)"

section \<open>Reading the graph\<close>

definition node_attrs :: "graph \<Rightarrow> string \<Rightarrow> attrs option" where
  "node_attrs g n = map_of (nodes g) n"

definition edge_attrs :: "graph \<Rightarrow> string \<Rightarrow> string \<Rightarrow> attrs option" where
  "edge_attrs g u v = map_of (edges g) (u, v)"

definition node_type :: "graph \<Rightarrow> string \<Rightarrow> attr_val option" where
  "node_type g n = (case node_attrs g n of None \<Rightarrow> None | Some a \<Rightarrow> map_of a ''type'')"

definition edge_label :: "graph \<Rightarrow> string \<Rightarrow> string \<Rightarrow> attr_val option" where
  "edge_label g u v = (case edge_attrs g u v of None \<Rightarrow> None | Some a \<Rightarrow> map_of a ''label'')"

section \<open>Vocabulary of the properties\<close>

text \<open>The local name that one alias of a plain import binds, and of a from-import.\<close>

definition import_bound :: "import_alias \<Rightarrow> string" where
  "import_bound al = str_or (alias_asname al) (split_dot_0 (alias_name al))"

definition from_bound :: "import_alias \<Rightarrow> string" where
  "from_bound al = str_or (alias_asname al) (alias_name al)"

text \<open>
  What the calls of a pass do to one node and to one edge. A call touches a node with
  the attributes it passes; \<open>add_edge\<close> touches both end points with none.
\<close>

definition opt_attrs :: "attrs option \<Rightarrow> attrs" where
  "opt_attrs c = (case c of None \<Rightarrow> [] | Some d \<Rightarrow> d)"

definition touch :: "attrs option \<Rightarrow> (string \<times> attr_val) list \<Rightarrow> attrs option" where
  "touch cur attr = Some (dict_update (opt_attrs cur) attr)"

fun node_touches :: "string \<Rightarrow> graph_op \<Rightarrow> (string \<times> attr_val) list list" where
  "node_touches k (AddNode n attr) = (if n = k then [attr] else [])"
| "node_touches k (AddEdge u v attr) =
     (if u = k then [[]] else []) @ (if v = k then [[]] else [])"

fun edge_touches :: "string \<times> string \<Rightarrow> graph_op \<Rightarrow> (string \<times> attr_val) list list" where
  "edge_touches e (AddNode n attr) = []"
| "edge_touches e (AddEdge u v attr) = (if (u, v) = e then [attr] else [])"

definition node_proj :: "string \<Rightarrow> graph_op list \<Rightarrow> (string \<times> attr_val) list list" where
  "node_proj k ops = concat (map (node_touches k) ops)"

definition edge_proj :: "string \<times> string \<Rightarrow> graph_op list \<Rightarrow> (string \<times> attr_val) list list" where
  "edge_proj e ops = concat (map (edge_touches e) ops)"

section \<open>Example repositories\<close>

text \<open>
  \<open>a.py\<close> refers to module \<open>b\<close> four times
  (\<open>import b\<close>, \<open>import b.sub as c\<close>, \<open>from b import x, y as z\<close>), \<open>b.py\<close> is
  empty, and \<open>notes.txt\<close> is no source file.
\<close>

definition aliases_walk :: walk where
  "aliases_walk = [('''', [''a.py'', ''b.py'', ''notes.txt''])]"

definition aliases_fs :: "string \<Rightarrow> ast list option" where
  "aliases_fs p =
     (if p = ''a.py'' then
        Some [Import [Alias ''b'' None], Import [Alias ''b.sub'' (Some ''c'')],
              ImportFrom (Some ''b'') [Alias ''x'' None, Alias ''y'' (Some ''z'')]]
      else if p = ''b.py'' then Some []
      else None)"

definition file_kwargs :: "string \<Rightarrow> (string \<times> attr_val) list" where
  "file_kwargs rel = [(''type'', AStr ''file''), (''display_name'', AStr rel)]"

definition class_kwargs :: "string \<Rightarrow> string \<times> ast \<Rightarrow> (string \<times> attr_val) list" where
  "class_kwargs rel_path c =
     (let start = getattr_lineno (snd c) 0;
          endl = getattr_end_lineno (snd c) start
      in [(''type'', AStr ''class''), (''display_name'', AStr (fst c)),
          (''file'', AStr rel_path), (''lineno'', AInt start),
          (''end_lineno'', AInt endl), (''loc'', AInt (max 0 (endl - start + 1))),
          (''doc'', AStr (str_or (get_docstring (snd c)) ''''))])"

definition function_kwargs :: "string \<Rightarrow> string \<times> ast \<Rightarrow> (string \<times> attr_val) list" where
  "function_kwargs rel_path f =
     (let start = getattr_lineno (snd f) 0;
          endl = getattr_end_lineno (snd f) start
      in [(''type'', AStr ''function''), (''display_name'', AStr (fst f @ ''()'')),
          (''file'', AStr rel_path), (''lineno'', AInt start),
          (''end_lineno'', AInt endl), (''loc'', AInt (max 0 (endl - start + 1))),
          (''params'', AStrs (args_args (snd f))),
          (''doc'', AStr (str_or (get_docstring (snd f)) ''''))])"

definition decl_id :: "string \<Rightarrow> string \<Rightarrow> string" where
  "decl_id rel n = rel @ ''::'' @ n"

definition lbl :: "string \<Rightarrow> (string \<times> attr_val) list" where
  "lbl l = [(''label'', AStr l)]"

fun before_sep :: "string \<Rightarrow> string" where
  "before_sep (c # d # s) =
     (if c = CHR '':'' \<and> d = CHR '':'' then [] else c # before_sep (d # s))"
| "before_sep s = s"

definition first_occ :: "'a list \<Rightarrow> 'a list" where
  "first_occ xs = rev (remdups (rev xs))"

definition index_entry :: "(string \<Rightarrow> ast list option) \<Rightarrow> string \<Rightarrow> (string \<times> parsed_file) option" where
  "index_entry fs p = (case fs p of None \<Rightarrow> None | Some body \<Rightarrow> Some (p, index_body p body))"

definition test_repo_walk :: walk where
  "test_repo_walk = [('''', [''file1.py'', ''file2.py'', ''file3.py''])]"

definition test_repo_fs :: "string \<Rightarrow> ast list option" where
  "test_repo_fs p =
     (if p = ''file1.py'' then
        Some [Import [Alias ''file2'' None],
              FunctionDef ''initialize_game'' [] (Some 3) (Some 6) None
                [Other [Call (Name ''print'') [Other []]],
                 Other [Call (Name ''load_assets'') []],
                 Other [Call (Other [Name ''file2'']) []]],
              FunctionDef ''load_assets'' [] (Some 8) (Some 9) None
                [Other [Call (Name ''print'') [Other []]]],
              ClassDef ''Character'' (Some 11) (Some 20) None
                [FunctionDef ''__init__'' [''self'', ''name'', ''health''] (Some 12) (Some 14) None [],
                 FunctionDef ''attack'' [''self'', ''target''] (Some 16) (Some 17) None
                   [Other [Call (Name ''print'') [Other []]]],
                 FunctionDef ''move'' [''self'', ''direction''] (Some 19) (Some 20) None
                   [Other [Call (Name ''print'') [Other []]]]],
              ClassDef ''Player'' (Some 22) (Some 28) None
                [Name ''Character'',
                 FunctionDef ''attack'' [''self'', ''target''] (Some 23) (Some 25) None
                   [Other [Call (Name ''print'') [Other []]],
                    Other [Call (Other [Call (Name ''super'') []]) [Name ''target'']]],
                 FunctionDef ''jump'' [''self''] (Some 27) (Some 28) None
                   [Other [Call (Name ''print'') [Other []]]]]]
      else if p = ''file2.py'' then
        Some [ClassDef ''Vehicle'' (Some 1) (Some 9) None
                [FunctionDef ''__init__'' [''self'', ''model''] (Some 2) (Some 3) None [],
                 FunctionDef ''start_engine'' [''self''] (Some 5) (Some 6) None
                   [Other [Call (Name ''print'') [Other []]]],
                 FunctionDef ''stop_engine'' [''self''] (Some 8) (Some 9) None
                   [Other [Call (Name ''print'') [Other []]]]],
              ClassDef ''Car'' (Some 11) (Some 17) None
                [Name ''Vehicle'',
                 FunctionDef ''start_engine'' [''self''] (Some 12) (Some 14) None
                   [Other [Call (Name ''print'') [Other []]],
                    Other [Call (Other [Call (Name ''super'') []]) []]],
                 FunctionDef ''honk'' [''self''] (Some 16) (Some 17) None
                   [Other [Call (Name ''print'') [Other []]]]],
              FunctionDef ''setup_levels'' [] (Some 19) (Some 20) None
                [Other [Call (Name ''print'') [Other []]]]]
      else if p = ''file3.py'' then
        Some [ImportFrom (Some ''file1'') [Alias ''initialize_game'' None, Alias ''Player'' None],
              ImportFrom (Some ''file2'') [Alias ''Car'' None],
              FunctionDef ''run_game'' [] (Some 4) (Some 5) None
                [Other [Call (Name ''initialize_game'') []]],
              FunctionDef ''test_player_actions'' [] (Some 7) (Some 11) None
                [Other [Name ''hero'', Call (Name ''Player'') [Other [], Other []]],
                 Other [Call (Other [Name ''hero'']) [Other []]],
                 Other [Call (Other [Name ''hero'']) [Name ''hero'']],
                 Other [Call (Other [Name ''hero'']) []]],
              FunctionDef ''test_car_actions'' [] (Some 13) (Some 17) None
                [Other [Name ''car'', Call (Name ''Car'') [Other []]],
                 Other [Call (Other [Name ''car'']) []],
                 Other [Call (Other [Name ''car'']) []],
                 Other [Call (Other [Name ''car'']) []]]]
      else None)"



definition valid_name :: "string \<Rightarrow> bool" where
  "valid_name n \<longleftrightarrow> CHR ''.'' \<notin> set n \<and> CHR '':'' \<notin> set n"

fun def_name :: "ast \<Rightarrow> string option" where
  "def_name (FunctionDef n ps l e d cs) = Some n"
| "def_name (ClassDef n l e d cs) = Some n"
| "def_name _ = None"

definition names_ok :: "walk \<Rightarrow> (string \<Rightarrow> ast list option) \<Rightarrow> bool" where
  "names_ok w fs =
     (\<forall>p \<in> set (py_files w).
        case fs p of
          None \<Rightarrow> True
        | Some body \<Rightarrow>
            (\<forall>s \<in> set body. case def_name s of None \<Rightarrow> True | Some n \<Rightarrow> valid_name n))"

definition edge_kind :: "string \<Rightarrow> string \<Rightarrow> string" where
  "edge_kind u v =
     (if endswith u ''.py'' then (if endswith v ''.py'' then ''file_import'' else ''defined_in'')
      else ''calls'')"


definition analysed :: "walk \<Rightarrow> (string \<Rightarrow> ast list option) \<Rightarrow> string list" where
  "analysed w fs = filter (\<lambda>p. fs p \<noteq> None) (first_occ (py_files w))"





fun op_keys :: "graph_op \<Rightarrow> string set" where
  "op_keys (AddNode n attr) = {n}"
| "op_keys (AddEdge u v attr) = {u, v}"

definition declared :: "walk \<Rightarrow> (string \<Rightarrow> ast list option) \<Rightarrow> string \<Rightarrow> string \<Rightarrow> bool" where
  "declared w fs rel n \<longleftrightarrow>
     (\<exists>body. rel \<in> set (py_files w) \<and> fs rel = Some body \<and>
        n \<in> fst ` set (pf_classes (index_body rel body)) \<union>
            fst ` set (pf_functions (index_body rel body)))"

definition node_attr :: "graph \<Rightarrow> string \<Rightarrow> string \<Rightarrow> attr_val option" where
  "node_attr g n x = (case node_attrs g n of None \<Rightarrow> None | Some a \<Rightarrow> map_of a x)"

definition isolation_walk :: walk where
  "isolation_walk = [('''', [''good.py'', ''bad.py''])]"

definition isolation_fs :: "string \<Rightarrow> ast list option" where
  "isolation_fs p =
     (if p = ''good.py'' then
        Some [ImportFrom (Some ''bad'') [Alias ''g'' None],
              FunctionDef ''f'' [] (Some 3) (Some 4) None [Other [Call (Name ''g'') []]]]
      else None)"

definition unique_targets :: "walk \<Rightarrow> (string \<Rightarrow> ast list option) \<Rightarrow> bool" where
  "unique_targets w fs =
     (\<forall>x \<in> set (parsed_files w fs). \<forall>m \<in> set (module_names (snd x)).
        length (filter (\<lambda>other_path. basename other_path = m @ ''.py'') (analysed w fs)) \<le> 1)"

definition dup_walk1 :: walk where
  "dup_walk1 = [('''', [''main.py'']), (''a'', [''util.py'']), (''b'', [''util.py''])]"

definition dup_walk2 :: walk where
  "dup_walk2 = [('''', [''main.py'']), (''b'', [''util.py'']), (''a'', [''util.py''])]"

definition dup_fs :: "string \<Rightarrow> ast list option" where
  "dup_fs p =
     (if p = ''main.py'' then Some [Import [Alias ''util'' None]]
      else if p = ''a/util.py'' \<or> p = ''b/util.py'' then Some []
      else None)"

definition test_repo_walk_rev :: walk where
  "test_repo_walk_rev = [('''', [''file3.py'', ''file2.py'', ''file1.py''])]"

definition no_clash :: "walk \<Rightarrow> (string \<Rightarrow> ast list option) \<Rightarrow> bool" where
  "no_clash w fs =
     (\<forall>p \<in> set (py_files w).
        case fs p of
          None \<Rightarrow> True
        | Some body \<Rightarrow>
            set (map fst (pf_classes (index_body p body))) \<inter>
            set (map fst (pf_functions (index_body p body))) = {})"

definition kept :: "graph \<Rightarrow> graph \<Rightarrow> bool" where
  "kept g g' \<longleftrightarrow>
     set (map fst (nodes g)) \<subseteq> set (map fst (nodes g')) \<and>
     set (map fst (edges g)) \<subseteq> set (map fst (edges g'))"

definition nodes_preserved :: "graph \<Rightarrow> graph \<Rightarrow> bool" where
  "nodes_preserved g g' \<longleftrightarrow> (\<forall>x \<in> set (nodes g). map_of (nodes g') (fst x) = Some (snd x))"

definition edges_preserved :: "graph \<Rightarrow> graph \<Rightarrow> bool" where
  "edges_preserved g g' \<longleftrightarrow> (\<forall>x \<in> set (edges g). map_of (edges g') (fst x) = Some (snd x))"

definition write_once :: "graph_op list \<Rightarrow> bool" where
  "write_once ops \<longleftrightarrow>
     (\<forall>i \<in> set [0..<length ops].
        nodes_preserved (run (take i ops) empty_graph) (run (take (Suc i) ops) empty_graph) \<and>
        edges_preserved (run (take i ops) empty_graph) (run (take (Suc i) ops) empty_graph))"

definition good :: "(string \<times> attr_val) list list \<Rightarrow> bool" where
  "good ts \<longleftrightarrow> ts = [] \<or> hd ts \<noteq> []"

definition clash_walk :: walk where
  "clash_walk = [('''', [''a.py''])]"

definition clash_fs :: "string \<Rightarrow> ast list option" where
  "clash_fs p =
     (if p = ''a.py'' then
        Some [ClassDef ''Foo'' (Some 1) (Some 2) None [],
              FunctionDef ''Foo'' [''x''] (Some 4) (Some 5) None []]
      else None)"

text \<open>
  \<open>a.py\<close> with the top-level statements \<open>import pkg.sub, os.path as p\<close>, a function
  \<open>f\<close> whose body holds \<open>import json\<close>, \<open>from x.y import f, g as h\<close>,
  \<open>from . import z\<close> and \<open>import q.r as p\<close>.
\<close>

definition imports_walk :: walk where
  "imports_walk = [('''', [''a.py'', ''README.md''])]"

definition imports_body :: "ast list" where
  "imports_body =
     [Import [Alias ''pkg.sub'' None, Alias ''os.path'' (Some ''p'')],
      FunctionDef ''f'' [] (Some 2) (Some 3) None [Import [Alias ''json'' None]],
      ImportFrom (Some ''x.y'') [Alias ''f'' None, Alias ''g'' (Some ''h'')],
      ImportFrom None [Alias ''z'' None],
      Import [Alias ''q.r'' (Some ''p'')]]"

definition imports_fs :: "string \<Rightarrow> ast list option" where
  "imports_fs p = (if p = ''a.py'' then Some imports_body else None)"

section \<open>Basic facts\<close>

lemma parse_run: "parse w fs = run (parse_ops w fs) empty_graph"
  by (simp add: parse_def parse_ops_def parsed_files_def run_def Let_def)

subsection \<open>Dictionaries\<close>

lemma update_absent: "map_of xs k = None \<Longrightarrow> AList.update k v xs = xs @ [(k, v)]"
  by (induction xs) (auto split: if_splits)

lemma set_update_subset: "set (AList.update k v al) \<subseteq> insert (k, v) (set al)"
  by (induction al) auto

lemma dict_update_Nil [simp]: "dict_update d [] = d"
  by (simp add: dict_update_def)

subsection \<open>What one call does to the graph\<close>

lemma nodes_add_node:
  "nodes (add_node n attr g) =
     AList.update n (dict_update (opt_attrs (map_of (nodes g) n)) attr) (nodes g)"
  by (simp add: add_node_def opt_attrs_def update_absent split: option.splits)

lemma edges_add_node [simp]: "edges (add_node n attr g) = edges g"
  by (simp add: add_node_def split: option.splits)

lemma nodes_ensure_node:
  "nodes (ensure_node n g) = AList.update n (opt_attrs (map_of (nodes g) n)) (nodes g)"
  by (auto simp add: ensure_node_def opt_attrs_def update_absent update_triv)

lemma edges_ensure_node [simp]: "edges (ensure_node n g) = edges g"
  by (simp add: ensure_node_def)

lemma node_attrs_add_node:
  "node_attrs (add_node n attr g) k =
     (if k = n then touch (node_attrs g n) attr else node_attrs g k)"
  by (simp add: node_attrs_def nodes_add_node update_conv' touch_def)

lemma node_attrs_ensure_node:
  "node_attrs (ensure_node n g) k =
     (if k = n then touch (node_attrs g n) [] else node_attrs g k)"
  by (simp add: node_attrs_def nodes_ensure_node update_conv' touch_def)

lemma nodes_add_edge: "nodes (add_edge u v attr g) = nodes (ensure_node v (ensure_node u g))"
  by (simp add: add_edge_def Let_def)

lemma edges_add_edge:
  "edges (add_edge u v attr g) =
     AList.update (u, v) (dict_update (opt_attrs (map_of (edges g) (u, v))) attr) (edges g)"
  by (simp add: add_edge_def Let_def opt_attrs_def)

lemma node_attrs_apply_op:
  "node_attrs (apply_op g op) k = foldl touch (node_attrs g k) (node_touches k op)"
proof (cases op)
  case (AddNode n attr)
  then show ?thesis by (simp add: node_attrs_add_node)
next
  case (AddEdge u v attr)
  have "node_attrs (add_edge u v attr g) k = node_attrs (ensure_node v (ensure_node u g)) k"
    by (simp add: node_attrs_def nodes_add_edge)
  then show ?thesis using AddEdge
    by (simp add: node_attrs_ensure_node)
qed

lemma edge_attrs_apply_op:
  "edge_attrs (apply_op g op) u v = foldl touch (edge_attrs g u v) (edge_touches (u, v) op)"
proof (cases op)
  case (AddNode n attr)
  then show ?thesis by (simp add: edge_attrs_def)
next
  case (AddEdge u' v' attr)
  then show ?thesis
    by (simp add: edge_attrs_def edges_add_edge update_conv' touch_def)
qed

lemma node_attrs_run:
  "node_attrs (run ops g) k = foldl touch (node_attrs g k) (node_proj k ops)"
  unfolding run_def node_proj_def
  by (induction ops arbitrary: g) (simp_all add: node_attrs_apply_op)

lemma edge_attrs_run:
  "edge_attrs (run ops g) u v = foldl touch (edge_attrs g u v) (edge_proj (u, v) ops)"
  unfolding run_def edge_proj_def
  by (induction ops arbitrary: g) (simp_all add: edge_attrs_apply_op)

lemma distinct_nodes_apply_op:
  "distinct (map fst (nodes g)) \<Longrightarrow> distinct (map fst (nodes (apply_op g op)))"
  by (cases op) (simp_all add: nodes_add_node nodes_add_edge nodes_ensure_node distinct_update)

lemma distinct_edges_apply_op:
  "distinct (map fst (edges g)) \<Longrightarrow> distinct (map fst (edges (apply_op g op)))"
  by (cases op) (simp_all add: edges_add_edge distinct_update)

lemma distinct_nodes_run:
  "distinct (map fst (nodes g)) \<Longrightarrow> distinct (map fst (nodes (run ops g)))"
  unfolding run_def by (induction ops arbitrary: g) (simp_all add: distinct_nodes_apply_op)

lemma distinct_edges_run:
  "distinct (map fst (edges g)) \<Longrightarrow> distinct (map fst (edges (run ops g)))"
  unfolding run_def by (induction ops arbitrary: g) (simp_all add: distinct_edges_apply_op)

subsection \<open>Import tables\<close>

lemma split_dot_0_append: "CHR ''.'' \<notin> set a \<Longrightarrow> split_dot_0 (a @ CHR ''.'' # b) = a"
  by (auto simp add: split_dot_0_def takeWhile_tail)

lemma split_dot_0_no_dot: "CHR ''.'' \<notin> set (split_dot_0 s)"
  unfolding split_dot_0_def by (induction s) auto

lemma fold_import_lookup:
  "map_of (fold index_import_alias names im) k =
     (case find (\<lambda>al. import_bound al = k) (rev names) of
        Some al \<Rightarrow> Some (split_dot_0 (alias_name al))
      | None \<Rightarrow> map_of im k)"
proof (induction names rule: rev_induct)
  case Nil
  show ?case by simp
next
  case (snoc x xs)
  show ?case
    using snoc.IH
    by (simp add: index_import_alias_def import_bound_def Let_def update_conv')
qed

lemma fold_from_lookup:
  "map_of (fold (index_from_alias modl) names fi) k =
     (if k \<in> from_bound ` set names then Some modl else map_of fi k)"
proof (induction names rule: rev_induct)
  case Nil
  show ?case by simp
next
  case (snoc x xs)
  show ?case
    using snoc.IH
    by (auto simp add: index_from_alias_def from_bound_def Let_def update_conv')
qed

lemma find_distinct_key:
  assumes "distinct (map f xs)" "x \<in> set xs"
  shows "find (\<lambda>y. f y = f x) xs = Some x"
  using assms by (induction xs) (auto simp: rev_image_eqI)

lemma fold_import_entries:
  "set (fold index_import_alias names im) \<subseteq>
     set im \<union> (\<lambda>al. (import_bound al, split_dot_0 (alias_name al))) ` set names"
proof (induction names arbitrary: im)
  case Nil
  show ?case by simp
next
  case (Cons a names)
  have "set (index_import_alias a im)
          \<subseteq> insert (import_bound a, split_dot_0 (alias_name a)) (set im)"
    using set_update_subset by (simp add: index_import_alias_def import_bound_def Let_def)
  with Cons.IH [of "index_import_alias a im"] show ?case by auto
qed

lemma fold_from_entries:
  "set (fold (index_from_alias modl) names fi) \<subseteq>
     set fi \<union> (\<lambda>al. (from_bound al, modl)) ` set names"
proof (induction names arbitrary: fi)
  case Nil
  show ?case by simp
next
  case (Cons a names)
  have "set (index_from_alias modl a fi) \<subseteq> insert (from_bound a, modl) (set fi)"
    using set_update_subset by (simp add: index_from_alias_def from_bound_def Let_def)
  with Cons.IH [of "index_from_alias modl a fi"] show ?case by auto
qed

lemma index_stmt_imports_entries:
  "set (pf_imports (index_stmt s pf)) \<subseteq>
     set (pf_imports pf) \<union>
     {(import_bound al, split_dot_0 (alias_name al)) | al names. s = Import names \<and> al \<in> set names}"
proof (cases s)
  case (Import names)
  then show ?thesis using fold_import_entries [of names "pf_imports pf"] by auto
next
  case (ImportFrom module names)
  then show ?thesis by (simp split: option.splits)
qed simp_all

lemma index_stmt_from_entries:
  "set (pf_from_imports (index_stmt s pf)) \<subseteq>
     set (pf_from_imports pf) \<union>
     {(from_bound al, split_dot_0 m) | al names m.
        s = ImportFrom (Some m) names \<and> m \<noteq> [] \<and> al \<in> set names}"
proof (cases s)
  case (ImportFrom module names)
  show ?thesis
  proof (cases module)
    case None
    with ImportFrom show ?thesis by simp
  next
    case (Some m)
    with ImportFrom show ?thesis
      using fold_from_entries [of "split_dot_0 m" names "pf_from_imports pf"] by auto
  qed
qed simp_all

lemma fold_index_stmt_imports_entries:
  "set (pf_imports (fold index_stmt body pf)) \<subseteq>
     set (pf_imports pf) \<union>
     {(import_bound al, split_dot_0 (alias_name al)) | al names.
        Import names \<in> set body \<and> al \<in> set names}"
proof (induction body arbitrary: pf)
  case Nil
  show ?case by simp
next
  case (Cons s body)
  show ?case
    using Cons.IH [of "index_stmt s pf"] index_stmt_imports_entries [of s pf]
    by (simp add: subset_iff) blast
qed

lemma fold_index_stmt_from_entries:
  "set (pf_from_imports (fold index_stmt body pf)) \<subseteq>
     set (pf_from_imports pf) \<union>
     {(from_bound al, split_dot_0 m) | al names m.
        ImportFrom (Some m) names \<in> set body \<and> m \<noteq> [] \<and> al \<in> set names}"
proof (induction body arbitrary: pf)
  case Nil
  show ?case by simp
next
  case (Cons s body)
  show ?case
    using Cons.IH [of "index_stmt s pf"] index_stmt_from_entries [of s pf]
    by (simp add: subset_iff) blast
qed

section \<open>One edge per pair of files\<close>

lemma filter_key_le_1:
  "distinct (map fst xs) \<Longrightarrow> length (filter (\<lambda>e. fst e = k \<and> P e) xs) \<le> 1"
proof (induction xs)
  case Nil
  show ?case by simp
next
  case (Cons x xs)
  show ?case
  proof (cases "fst x = k")
    case True
    with Cons.prems have "k \<notin> fst ` set xs" by simp
    then have "filter (\<lambda>e. fst e = k \<and> P e) xs = []"
      by (force simp: filter_empty_conv image_iff)
    then show ?thesis by simp
  next
    case False
    with Cons show ?thesis by simp
  qed
qed

text \<open>
  Claim C7. The edges of the built graph are keyed by the ordered pair of their end
  points, so for two files \<open>A\<close> and \<open>B\<close> the graph holds at most one entry from \<open>A\<close>
  to \<open>B\<close> labelled \<open>file_import\<close>, whatever \<open>A\<close> imports and however often.
\<close>

theorem at_most_one_file_import:
  "length (filter (\<lambda>e. fst e = (A, B) \<and> map_of (snd e) ''label'' = Some (AStr ''file_import''))
     (edges (parse w fs))) \<le> 1"
proof -
  have "distinct (map fst (edges (parse w fs)))"
    unfolding parse_run by (rule distinct_edges_run) (simp add: empty_graph_def)
  then show ?thesis by (rule filter_key_le_1)
qed

theorem at_most_one_file_import_witness:
  "length (filter (\<lambda>e. fst e = (''a.py'', ''b.py'') \<and>
                       map_of (snd e) ''label'' = Some (AStr ''file_import''))
     (edges (parse aliases_walk aliases_fs))) = 1"
proof -
  have "1 \<le> length (filter (\<lambda>e. fst e = (''a.py'', ''b.py'') \<and>
                       map_of (snd e) ''label'' = Some (AStr ''file_import''))
     (edges (parse aliases_walk aliases_fs)))"
    by code_simp
  then show ?thesis
    using at_most_one_file_import [of "''a.py''" "''b.py''" aliases_walk aliases_fs]
    by linarith
qed

lemma class_ops_eq:
  "class_ops rel c =
     [AddNode (decl_id rel (fst c)) (class_kwargs rel c),
      AddEdge rel (decl_id rel (fst c)) (lbl ''defined_in'')]"
  by (simp add: class_ops_def class_kwargs_def decl_id_def lbl_def Let_def)

lemma function_ops_eq:
  "function_ops rel f =
     [AddNode (decl_id rel (fst f)) (function_kwargs rel f),
      AddEdge rel (decl_id rel (fst f)) (lbl ''defined_in'')]"
  by (simp add: function_ops_def function_kwargs_def decl_id_def lbl_def Let_def)

lemma import_ops_mem:
  "op \<in> set (import_ops keys rel m) \<longleftrightarrow>
     (\<exists>q. find (\<lambda>other. basename other = m @ ''.py'') keys = Some q \<and>
          op = AddEdge rel q (lbl ''file_import''))"
  by (auto simp add: import_ops_def lbl_def Let_def split: option.splits)

lemma call_ops_mem:
  "op \<in> set (call_ops rel lf caller sub) \<longleftrightarrow>
     (\<exists>t args. sub = Call (Name t) args \<and> t \<in> fst ` set lf \<and>
        op = AddEdge caller (decl_id rel t) (lbl ''calls''))"
proof (cases sub)
  case (Call f args)
  then show ?thesis by (cases f) (auto simp add: decl_id_def lbl_def)
qed auto

lemma file_ops_mem:
  "op \<in> set (file_ops files (rel, pf)) \<longleftrightarrow>
     (\<exists>c \<in> set (pf_classes pf).
        op = AddNode (decl_id rel (fst c)) (class_kwargs rel c) \<or>
        op = AddEdge rel (decl_id rel (fst c)) (lbl ''defined_in'')) \<or>
     (\<exists>f \<in> set (pf_functions pf).
        op = AddNode (decl_id rel (fst f)) (function_kwargs rel f) \<or>
        op = AddEdge rel (decl_id rel (fst f)) (lbl ''defined_in'')) \<or>
     (\<exists>m \<in> set (module_names pf). \<exists>q.
        find (\<lambda>other. basename other = m @ ''.py'') (map fst files) = Some q \<and>
        op = AddEdge rel q (lbl ''file_import''))"
  by (auto simp add: file_ops_def Let_def class_ops_eq function_ops_eq import_ops_mem)

lemma file_call_ops_mem:
  "op \<in> set (file_call_ops (rel, pf)) \<longleftrightarrow>
     (\<exists>f \<in> set (pf_functions pf). \<exists>t args.
        Call (Name t) args \<in> set (walk_ast (snd f)) \<and> t \<in> fst ` set (pf_functions pf) \<and>
        op = AddEdge (decl_id rel (fst f)) (decl_id rel t) (lbl ''calls''))"
  by (auto simp add: file_call_ops_def function_call_ops_def Let_def call_ops_mem decl_id_def)

lemma add_nodes_and_edges_mem:
  "op \<in> set (add_nodes_and_edges files) \<longleftrightarrow>
     (\<exists>x \<in> set files. op \<in> set (file_ops files x))"
  by (auto simp add: add_nodes_and_edges_def)

lemma resolve_calls_basic_mem:
  "op \<in> set (resolve_calls_basic files) \<longleftrightarrow> (\<exists>x \<in> set files. op \<in> set (file_call_ops x))"
  by (auto simp add: resolve_calls_basic_def)

lemma collect_files_mem:
  "op \<in> set (collect_files w) \<longleftrightarrow> (\<exists>rel \<in> set (py_files w). op = AddNode rel (file_kwargs rel))"
  by (auto simp add: collect_files_def file_kwargs_def)

lemma edge_proj_mem: "a \<in> set (edge_proj e ops) \<longleftrightarrow> AddEdge (fst e) (snd e) a \<in> set ops"
proof (induction ops)
  case Nil
  show ?case by (simp add: edge_proj_def)
next
  case (Cons op ops)
  show ?case
  proof (cases op)
    case (AddNode n b)
    with Cons show ?thesis by (simp add: edge_proj_def)
  next
    case (AddEdge u v b)
    with Cons show ?thesis by (cases e) (auto simp add: edge_proj_def)
  qed
qed

lemma edge_proj_append [simp]: "edge_proj e (xs @ ys) = edge_proj e xs @ edge_proj e ys"
  by (simp add: edge_proj_def)

lemma node_proj_append [simp]: "node_proj k (xs @ ys) = node_proj k xs @ node_proj k ys"
  by (simp add: node_proj_def)

lemma touch_lbl: "cur = None \<or> (\<exists>l'. cur = Some (lbl l')) \<Longrightarrow> touch cur (lbl l) = Some (lbl l)"
  by (auto simp add: touch_def lbl_def opt_attrs_def dict_update_def)

lemma foldl_touch_lbl:
  assumes "\<forall>a \<in> set ts. \<exists>l. a = lbl l"
  shows "foldl touch None ts = (if ts = [] then None else Some (last ts))"
  using assms
proof (induction ts rule: rev_induct)
  case Nil
  show ?case by simp
next
  case (snoc x xs)
  from snoc.prems obtain l where x: "x = lbl l" by auto
  from snoc.prems have "\<forall>a \<in> set xs. \<exists>l. a = lbl l" by simp
  with snoc.IH have ih: "foldl touch None xs = (if xs = [] then None else Some (last xs))" by simp
  have "foldl touch None xs = None \<or> (\<exists>l'. foldl touch None xs = Some (lbl l'))"
  proof (cases "xs = []")
    case True
    then show ?thesis by simp
  next
    case False
    then have "last xs \<in> set xs" by simp
    with snoc.prems obtain l' where "last xs = lbl l'" by auto
    with ih False show ?thesis by auto
  qed
  then show ?case using x by (simp add: touch_lbl)
qed

lemma edge_attrs_empty [simp]: "edge_attrs empty_graph u v = None"
  by (simp add: edge_attrs_def empty_graph_def)

lemma node_attrs_empty [simp]: "node_attrs empty_graph k = None"
  by (simp add: node_attrs_def empty_graph_def)

lemma parse_ops_edge_lbl:
  assumes "a \<in> set (edge_proj e (parse_ops w fs))"
  shows "\<exists>l. a = lbl l"
proof -
  from assms have "AddEdge (fst e) (snd e) a \<in> set (parse_ops w fs)"
    by (simp add: edge_proj_mem)
  then show ?thesis
    unfolding parse_ops_def
    by (auto simp add: collect_files_mem add_nodes_and_edges_mem resolve_calls_basic_mem
          file_ops_mem file_call_ops_mem)
qed

lemma edge_attrs_parse:
  "edge_attrs (parse w fs) u v =
     (if edge_proj (u, v) (parse_ops w fs) = [] then None
      else Some (last (edge_proj (u, v) (parse_ops w fs))))"
  unfolding parse_run edge_attrs_run
  using foldl_touch_lbl [of "edge_proj (u, v) (parse_ops w fs)"] parse_ops_edge_lbl [of _ "(u, v)" w fs]
  by auto

lemma edge_proj_collect [simp]: "edge_proj e (collect_files w) = []"
  by (simp add: edge_proj_def collect_files_def)

lemma edge_label_lbl: "map_of (lbl l) ''label'' = Some (AStr l)"
  by (simp add: lbl_def)

lemma before_sep_decl_id: "before_sep (decl_id rel x) = before_sep (decl_id rel y)"
  unfolding decl_id_def
  by (induction rel rule: before_sep.induct) auto

lemma first_occ_snoc:
  "first_occ (xs @ [x]) = (if x \<in> set xs then first_occ xs else first_occ xs @ [x])"
  by (simp add: first_occ_def)

lemma set_first_occ [simp]: "set (first_occ xs) = set xs"
  by (simp add: first_occ_def)

lemma distinct_first_occ [simp]: "distinct (first_occ xs)"
  by (simp add: first_occ_def)

lemma first_occ_distinct: "distinct xs \<Longrightarrow> first_occ xs = xs"
  by (simp add: first_occ_def distinct_remdups_id)

lemma set_map_filter_conv: "set (List.map_filter f xs) = {y. \<exists>x \<in> set xs. f x = Some y}"
  by (induction xs) (auto split: option.splits)

lemma map_of_tabulate:
  "map_of (map (\<lambda>k. (k, f k)) ys) x = (if x \<in> set ys then Some (f x) else None)"
  by (induction ys) auto

lemma dict_update_file_kwargs:
  "dict_update [] (file_kwargs x) = file_kwargs x"
  "dict_update (file_kwargs x) (file_kwargs x) = file_kwargs x"
  by (simp_all add: dict_update_def file_kwargs_def)

lemma nodes_collect_aux:
  "nodes (run (map (\<lambda>rel. AddNode rel (file_kwargs rel)) xs) empty_graph) =
     map (\<lambda>rel. (rel, file_kwargs rel)) (first_occ xs)"
proof (induction xs rule: rev_induct)
  case Nil
  show ?case by (simp add: run_def empty_graph_def first_occ_def)
next
  case (snoc x xs)
  let ?g = "run (map (\<lambda>rel. AddNode rel (file_kwargs rel)) xs) empty_graph"
  have step: "run (map (\<lambda>rel. AddNode rel (file_kwargs rel)) (xs @ [x])) empty_graph =
        add_node x (file_kwargs x) ?g"
    by (simp add: run_def)
  have look: "map_of (nodes ?g) x = (if x \<in> set xs then Some (file_kwargs x) else None)"
    by (simp add: snoc.IH map_of_tabulate)
  show ?case
  proof (cases "x \<in> set xs")
    case True
    with look have "nodes (add_node x (file_kwargs x) ?g) = nodes ?g"
      by (simp add: nodes_add_node opt_attrs_def dict_update_file_kwargs update_triv)
    with True show ?thesis
      unfolding step by (simp add: first_occ_snoc snoc.IH)
  next
    case False
    with look have "nodes (add_node x (file_kwargs x) ?g) = nodes ?g @ [(x, file_kwargs x)]"
      by (simp add: nodes_add_node opt_attrs_def dict_update_file_kwargs update_absent)
    with False show ?thesis
      unfolding step by (simp add: first_occ_snoc snoc.IH)
  qed
qed

lemma nodes_collect:
  "nodes (run (collect_files w) empty_graph) =
     map (\<lambda>rel. (rel, file_kwargs rel)) (first_occ (py_files w))"
  using nodes_collect_aux [of "py_files w"]
  by (simp add: collect_files_def file_kwargs_def)

lemma index_files_eq:
  assumes "distinct (map fst ns)"
    and "\<forall>x \<in> set ns. map_of (snd x) ''type'' = Some (AStr ''file'')"
    and "fst ` set ns \<inter> fst ` set files = {}"
  shows "index_files fs ns files = files @ List.map_filter (index_entry fs) (map fst ns)"
  using assms
proof (induction ns arbitrary: files)
  case Nil
  show ?case by simp
next
  case (Cons x ns)
  obtain node_id a where x: "x = (node_id, a)" by (cases x)
  from Cons.prems x have ty: "map_of a ''type'' = Some (AStr ''file'')" by simp
  from Cons.prems x have d: "distinct (map fst ns)" and not_in: "node_id \<notin> fst ` set ns"
    and not_files: "node_id \<notin> fst ` set files" by auto
  from Cons.prems have tys: "\<forall>x \<in> set ns. map_of (snd x) ''type'' = Some (AStr ''file'')" by simp
  from Cons.prems have disj: "fst ` set ns \<inter> fst ` set files = {}" by auto
  show ?case
  proof (cases "fs node_id")
    case None
    then show ?thesis
      using Cons.IH [OF d tys disj] x ty
      by (simp add: index_entry_def)
  next
    case (Some body)
    have absent: "map_of files node_id = None"
      using not_files by (simp add: map_of_eq_None_iff)
    have upd: "AList.update node_id (index_body node_id body) files =
                 files @ [(node_id, index_body node_id body)]"
      using absent by (rule update_absent)
    have disj': "fst ` set ns \<inter> fst ` set (files @ [(node_id, index_body node_id body)]) = {}"
      using disj not_in by auto
    show ?thesis
      using Cons.IH [OF d tys disj'] x ty Some upd
      by (simp add: index_entry_def)
  qed
qed

lemma parsed_files_eq:
  "parsed_files w fs = List.map_filter (index_entry fs) (first_occ (py_files w))"
proof -
  let ?ns = "map (\<lambda>rel. (rel, file_kwargs rel)) (first_occ (py_files w))"
  have m: "map fst ?ns = first_occ (py_files w)" by (simp add: comp_def)
  have "index_files fs ?ns [] = [] @ List.map_filter (index_entry fs) (map fst ?ns)"
    by (rule index_files_eq) (simp_all add: comp_def file_kwargs_def)
  then show ?thesis
    unfolding m by (simp add: parsed_files_def nodes_collect)
qed

lemma parsed_files_mem:
  "(rel, pf) \<in> set (parsed_files w fs) \<longleftrightarrow>
     rel \<in> set (py_files w) \<and> (\<exists>body. fs rel = Some body \<and> pf = index_body rel body)"
  by (auto simp add: parsed_files_eq set_map_filter_conv index_entry_def split: option.splits)

lemma parsed_files_keys:
  "map fst (parsed_files w fs) = filter (\<lambda>p. fs p \<noteq> None) (first_occ (py_files w))"
proof -
  have "map fst (List.map_filter (index_entry fs) xs) = filter (\<lambda>p. fs p \<noteq> None) xs" for xs
    by (induction xs) (auto simp add: index_entry_def split: option.splits)
  then show ?thesis by (simp add: parsed_files_eq)
qed

lemma distinct_parsed_files: "distinct (map fst (parsed_files w fs))"
  by (simp add: parsed_files_keys)

lemma lbl_eq [simp]: "lbl a = lbl b \<longleftrightarrow> a = b"
  by (simp add: lbl_def)

lemma edge_in_collect: "AddEdge u v a \<notin> set (collect_files w)"
  by (auto simp add: collect_files_mem)

lemma edge_in_add:
  "AddEdge u v a \<in> set (add_nodes_and_edges files) \<Longrightarrow>
     a = lbl ''defined_in'' \<or> a = lbl ''file_import''"
  by (auto simp add: add_nodes_and_edges_mem file_ops_mem)

lemma edge_in_resolve:
  "AddEdge u v a \<in> set (resolve_calls_basic files) \<Longrightarrow> a = lbl ''calls''"
  by (auto simp add: resolve_calls_basic_mem file_call_ops_mem)

lemma calls_edge_origin:
  assumes "edge_label (parse w fs) u v = Some (AStr ''calls'')"
  shows "AddEdge u v (lbl ''calls'') \<in> set (resolve_calls_basic (parsed_files w fs))"
proof -
  let ?ts = "edge_proj (u, v) (parse_ops w fs)"
  from assms have ne: "?ts \<noteq> []" and la: "map_of (last ?ts) ''label'' = Some (AStr ''calls'')"
    by (auto simp add: edge_label_def edge_attrs_parse split: if_splits)
  from ne have "last ?ts \<in> set ?ts" by simp
  then have "AddEdge u v (last ?ts) \<in> set (parse_ops w fs)"
    by (simp add: edge_proj_mem)
  then consider
      "AddEdge u v (last ?ts) \<in> set (add_nodes_and_edges (parsed_files w fs))"
    | "AddEdge u v (last ?ts) \<in> set (resolve_calls_basic (parsed_files w fs))"
    unfolding parse_ops_def using edge_in_collect by auto
  then show ?thesis
  proof cases
    case 1
    from edge_in_add [OF 1] la show ?thesis by (auto simp add: edge_label_lbl)
  next
    case 2
    from edge_in_resolve [OF 2] 2 show ?thesis by simp
  qed
qed

section \<open>Calls stay inside one file\<close>

text \<open>
  Claim C6. Every edge of the built graph that is labelled \<open>calls\<close> runs between two
  identifiers \<open>rel::f\<close> and \<open>rel::t\<close> of one successfully analysed file \<open>rel\<close>, where
  \<open>f\<close> and \<open>t\<close> are top-level functions of that file; in particular the part before
  \<open>::\<close> is the same in both.
\<close>

theorem calls_same_file:
  assumes "edge_label (parse w fs) u v = Some (AStr ''calls'')"
  shows "before_sep u = before_sep v \<and>
         (\<exists>rel pf f t. (rel, pf) \<in> set (parsed_files w fs) \<and>
            f \<in> fst ` set (pf_functions pf) \<and> t \<in> fst ` set (pf_functions pf) \<and>
            u = rel @ ''::'' @ f \<and> v = rel @ ''::'' @ t)"
proof -
  from calls_edge_origin [OF assms]
  obtain x where x: "x \<in> set (parsed_files w fs)"
    and op: "AddEdge u v (lbl ''calls'') \<in> set (file_call_ops x)"
    unfolding resolve_calls_basic_mem by blast
  obtain rel pf where xp: "x = (rel, pf)" by (cases x)
  from op obtain f t where f: "f \<in> set (pf_functions pf)"
    and t: "t \<in> fst ` set (pf_functions pf)"
    and u: "u = decl_id rel (fst f)" and v: "v = decl_id rel t"
    unfolding xp file_call_ops_mem by auto
  have "before_sep u = before_sep v" unfolding u v by (rule before_sep_decl_id)
  moreover have "fst f \<in> fst ` set (pf_functions pf)" using f by simp
  ultimately show ?thesis using x xp t u v unfolding decl_id_def by blast
qed

theorem calls_same_file_witness:
  "edge_label (parse test_repo_walk test_repo_fs)
     ''file1.py::initialize_game'' ''file1.py::load_assets'' = Some (AStr ''calls'') \<and>
   before_sep ''file1.py::initialize_game'' = before_sep ''file1.py::load_assets'' \<and>
   before_sep ''file1.py::initialize_game'' = ''file1.py''"
proof -
  have h: "edge_label (parse test_repo_walk test_repo_fs)
     ''file1.py::initialize_game'' ''file1.py::load_assets'' = Some (AStr ''calls'')"
    by code_simp
  have "before_sep ''file1.py::initialize_game'' = ''file1.py''" by simp
  with h calls_same_file [OF h] show ?thesis by blast
qed


section \<open>Recursive functions\<close>



lemma endswith_append: "endswith s suf \<Longrightarrow> endswith (r @ s) suf"
proof -
  assume a: "endswith s suf"
  then have "length (take (length suf) (rev s)) = length (rev suf)"
    by (simp only: endswith_def)
  then have "length suf \<le> length s" by simp
  with a show ?thesis by (simp add: endswith_def)
qed

lemma relpath_endswith: "endswith fname suf \<Longrightarrow> endswith (relpath root fname) suf"
  using endswith_append [of fname suf "root @ ''/''"] by (simp add: relpath_def)

lemma py_files_endswith: "rel \<in> set (py_files w) \<Longrightarrow> endswith rel ''.py''"
  by (auto simp add: py_files_def intro: relpath_endswith)

lemma decl_id_not_py:
  assumes "valid_name n"
  shows "\<not> endswith (decl_id rel n) ''.py''"
proof
  assume e: "endswith (decl_id rel n) ''.py''"
  define m where "m = rev n"
  have dot: "CHR ''.'' \<notin> set m" using assms by (simp add: m_def valid_name_def)
  from e have t: "take 3 (m @ '':'' @ '':'' @ rev rel) = ''yp.''"
    by (simp add: endswith_def decl_id_def m_def numeral_3_eq_3)
  show False
  proof (cases m)
    case Nil
    with t show False by simp
  next
    case (Cons a m1)
    show False
    proof (cases m1)
      case Nil
      with Cons t show False by simp
    next
      case (Cons b m2)
      note c2 = Cons
      show False
      proof (cases m2)
        case Nil
        with c2 \<open>m = a # m1\<close> t show False by simp
      next
        case (Cons c m3)
        with c2 \<open>m = a # m1\<close> t dot show False by simp
      qed
    qed
  qed
qed

lemma decl_id_inj:
  assumes "valid_name n" "valid_name n'" "decl_id rel n = decl_id rel' n'"
  shows "rel = rel' \<and> n = n'"
proof -
  let ?P = "\<lambda>c. c \<noteq> CHR '':''"
  from assms(3) have "rev (decl_id rel n) = rev (decl_id rel' n')" by simp
  then have eq: "rev n @ CHR '':'' # CHR '':'' # rev rel = rev n' @ CHR '':'' # CHR '':'' # rev rel'"
    by (simp add: decl_id_def)
  have a: "takeWhile ?P (rev n @ CHR '':'' # CHR '':'' # rev rel) = rev n"
    using assms(1) by (auto simp add: takeWhile_tail valid_name_def)
  have b: "takeWhile ?P (rev n' @ CHR '':'' # CHR '':'' # rev rel') = rev n'"
    using assms(2) by (auto simp add: takeWhile_tail valid_name_def)
  from a b eq have "rev n = rev n'" by simp
  then have n: "n = n'" by simp
  with assms(3) show ?thesis by (simp add: decl_id_def)
qed

lemma fold_index_stmt_function_keys:
  "fst ` set (pf_functions (fold index_stmt body pf)) \<subseteq>
     fst ` set (pf_functions pf) \<union> {n. \<exists>s \<in> set body. def_name s = Some n}"
proof (induction body arbitrary: pf)
  case Nil
  show ?case by simp
next
  case (Cons s body)
  have "fst ` set (pf_functions (index_stmt s pf)) \<subseteq>
          fst ` set (pf_functions pf) \<union> {n. def_name s = Some n}"
    by (cases s) (auto simp add: dom_update split: option.splits)
  with Cons.IH [of "index_stmt s pf"] show ?case by auto
qed

lemma fold_index_stmt_class_keys:
  "fst ` set (pf_classes (fold index_stmt body pf)) \<subseteq>
     fst ` set (pf_classes pf) \<union> {n. \<exists>s \<in> set body. def_name s = Some n}"
proof (induction body arbitrary: pf)
  case Nil
  show ?case by simp
next
  case (Cons s body)
  have "fst ` set (pf_classes (index_stmt s pf)) \<subseteq>
          fst ` set (pf_classes pf) \<union> {n. def_name s = Some n}"
    by (cases s) (auto simp add: dom_update split: option.splits)
  with Cons.IH [of "index_stmt s pf"] show ?case by auto
qed

lemma names_ok_valid:
  assumes "names_ok w fs" "(rel, pf) \<in> set (parsed_files w fs)"
    and "n \<in> fst ` set (pf_functions pf) \<union> fst ` set (pf_classes pf)"
  shows "valid_name n"
proof -
  from assms(2) obtain body where rel: "rel \<in> set (py_files w)" and body: "fs rel = Some body"
    and pf: "pf = index_body rel body"
    by (auto simp add: parsed_files_mem)
  from assms(3) have "\<exists>s \<in> set body. def_name s = Some n"
    using fold_index_stmt_function_keys [of body
        "\<lparr>pf_path = rel, pf_ast_tree = body, pf_functions = [], pf_classes = [],
          pf_imports = [], pf_from_imports = []\<rparr>"]
      fold_index_stmt_class_keys [of body
        "\<lparr>pf_path = rel, pf_ast_tree = body, pf_functions = [], pf_classes = [],
          pf_imports = [], pf_from_imports = []\<rparr>"]
    unfolding pf index_body_def by auto
  then obtain s where "s \<in> set body" "def_name s = Some n" by blast
  with assms(1) rel body show ?thesis
    unfolding names_ok_def by (auto split: option.splits)
qed

lemma analysed_keys: "map fst (parsed_files w fs) = analysed w fs"
  by (simp add: parsed_files_keys analysed_def)

lemma analysed_mem: "q \<in> set (analysed w fs) \<longleftrightarrow> q \<in> set (py_files w) \<and> fs q \<noteq> None"
  by (auto simp add: analysed_def)

lemma find_mem: "find P xs = Some x \<Longrightarrow> x \<in> set xs \<and> P x"
  by (induction xs) (auto split: if_splits)





lemma edge_op_kind:
  assumes ok: "names_ok w fs" and op: "AddEdge u v a \<in> set (parse_ops w fs)"
  shows "a = lbl (edge_kind u v)"
proof -
  let ?files = "parsed_files w fs"
  from op consider
      (add) "AddEdge u v a \<in> set (add_nodes_and_edges ?files)"
    | (res) "AddEdge u v a \<in> set (resolve_calls_basic ?files)"
    unfolding parse_ops_def using edge_in_collect by auto
  then show ?thesis
  proof cases
    case add
    then obtain x where x: "x \<in> set ?files" and m: "AddEdge u v a \<in> set (file_ops ?files x)"
      unfolding add_nodes_and_edges_mem by blast
    obtain rel pf where xp: "x = (rel, pf)" by (cases x)
    from x xp have rel: "endswith rel ''.py''"
      by (auto simp add: parsed_files_mem intro: py_files_endswith)
    from m consider
        (cls) c where "c \<in> set (pf_classes pf)" "u = rel" "v = decl_id rel (fst c)" "a = lbl ''defined_in''"
      | (fn) f where "f \<in> set (pf_functions pf)" "u = rel" "v = decl_id rel (fst f)" "a = lbl ''defined_in''"
      | (imp) mo q where "find (\<lambda>other. basename other = mo @ ''.py'') (map fst ?files) = Some q"
          "u = rel" "v = q" "a = lbl ''file_import''"
      unfolding xp file_ops_mem by auto
    then show ?thesis
    proof cases
      case cls
      from cls(1) have "valid_name (fst c)"
        using names_ok_valid [OF ok, of rel pf "fst c"] x xp by auto
      then have "\<not> endswith v ''.py''" unfolding cls(3) by (rule decl_id_not_py)
      with rel cls show ?thesis by (simp add: edge_kind_def)
    next
      case fn
      from fn(1) have "valid_name (fst f)"
        using names_ok_valid [OF ok, of rel pf "fst f"] x xp by auto
      then have "\<not> endswith v ''.py''" unfolding fn(3) by (rule decl_id_not_py)
      with rel fn show ?thesis by (simp add: edge_kind_def)
    next
      case imp
      from find_mem [OF imp(1)] have "q \<in> set (analysed w fs)" by (simp add: analysed_keys)
      then have "endswith q ''.py''" by (auto simp add: analysed_mem intro: py_files_endswith)
      with rel imp show ?thesis by (simp add: edge_kind_def)
    qed
  next
    case res
    then obtain x where x: "x \<in> set ?files" and m: "AddEdge u v a \<in> set (file_call_ops x)"
      unfolding resolve_calls_basic_mem by blast
    obtain rel pf where xp: "x = (rel, pf)" by (cases x)
    from m obtain f where f: "f \<in> set (pf_functions pf)" and u: "u = decl_id rel (fst f)"
      and a: "a = lbl ''calls''"
      unfolding xp file_call_ops_mem by auto
    from f have "valid_name (fst f)"
      using names_ok_valid [OF ok, of rel pf "fst f"] x xp by auto
    then have "\<not> endswith u ''.py''" unfolding u by (rule decl_id_not_py)
    with a show ?thesis by (simp add: edge_kind_def)
  qed
qed

lemma edge_attrs_iff:
  assumes "names_ok w fs"
  shows "edge_attrs (parse w fs) u v = Some a \<longleftrightarrow> AddEdge u v a \<in> set (parse_ops w fs)"
proof
  assume "edge_attrs (parse w fs) u v = Some a"
  then have ne: "edge_proj (u, v) (parse_ops w fs) \<noteq> []"
    and a: "a = last (edge_proj (u, v) (parse_ops w fs))"
    by (auto simp add: edge_attrs_parse split: if_splits)
  then have "a \<in> set (edge_proj (u, v) (parse_ops w fs))" by simp
  then show "AddEdge u v a \<in> set (parse_ops w fs)" by (simp add: edge_proj_mem)
next
  assume op: "AddEdge u v a \<in> set (parse_ops w fs)"
  then have "a \<in> set (edge_proj (u, v) (parse_ops w fs))" by (simp add: edge_proj_mem)
  then have ne: "edge_proj (u, v) (parse_ops w fs) \<noteq> []" by auto
  then have "last (edge_proj (u, v) (parse_ops w fs)) \<in> set (edge_proj (u, v) (parse_ops w fs))"
    by simp
  then have "AddEdge u v (last (edge_proj (u, v) (parse_ops w fs))) \<in> set (parse_ops w fs)"
    by (simp add: edge_proj_mem)
  from edge_op_kind [OF assms this] edge_op_kind [OF assms op]
  have "last (edge_proj (u, v) (parse_ops w fs)) = a" by simp
  with ne show "edge_attrs (parse w fs) u v = Some a" by (simp add: edge_attrs_parse)
qed

lemma edge_label_iff:
  assumes "names_ok w fs"
  shows "edge_label (parse w fs) u v = Some (AStr l) \<longleftrightarrow> AddEdge u v (lbl l) \<in> set (parse_ops w fs)"
proof
  assume "edge_label (parse w fs) u v = Some (AStr l)"
  then obtain a where a: "edge_attrs (parse w fs) u v = Some a" and l: "map_of a ''label'' = Some (AStr l)"
    by (auto simp add: edge_label_def split: option.splits)
  from a have op: "AddEdge u v a \<in> set (parse_ops w fs)" by (simp add: edge_attrs_iff [OF assms])
  from edge_op_kind [OF assms op] l have "a = lbl l" by (simp add: edge_label_lbl)
  with op show "AddEdge u v (lbl l) \<in> set (parse_ops w fs)" by simp
next
  assume "AddEdge u v (lbl l) \<in> set (parse_ops w fs)"
  then have "edge_attrs (parse w fs) u v = Some (lbl l)" by (simp add: edge_attrs_iff [OF assms])
  then show "edge_label (parse w fs) u v = Some (AStr l)" by (simp add: edge_label_def edge_label_lbl)
qed




lemma distinct_edges_parse: "distinct (map fst (edges (parse w fs)))"
  unfolding parse_run by (rule distinct_edges_run) (simp add: empty_graph_def)






lemma node_proj_mem:
  "a \<in> set (node_proj k ops) \<longleftrightarrow>
     AddNode k a \<in> set ops \<or>
     (a = [] \<and> (\<exists>u v b. AddEdge u v b \<in> set ops \<and> (u = k \<or> v = k)))"
proof (induction ops)
  case Nil
  show ?case by (simp add: node_proj_def)
next
  case (Cons op ops)
  have split: "node_proj k (op # ops) = node_touches k op @ node_proj k ops"
    by (simp add: node_proj_def)
  show ?case
  proof (cases op)
    case (AddNode n b)
    with Cons split show ?thesis by auto
  next
    case (AddEdge u v b)
    with Cons split show ?thesis by auto
  qed
qed

lemma node_proj_Nil_iff: "node_proj k ops = [] \<longleftrightarrow> (\<forall>op \<in> set ops. k \<notin> op_keys op)"
proof (induction ops)
  case Nil
  show ?case by (simp add: node_proj_def)
next
  case (Cons op ops)
  have split: "node_proj k (op # ops) = node_touches k op @ node_proj k ops"
    by (simp add: node_proj_def)
  show ?case using Cons split by (cases op) auto
qed

lemma foldl_touch_Some: "ts \<noteq> [] \<Longrightarrow> foldl touch c ts \<noteq> None"
  by (induction ts arbitrary: c rule: rev_induct) (simp_all add: touch_def)

lemma foldl_touch_keep:
  "\<forall>t \<in> set ts. dict_update d t = d \<Longrightarrow> foldl touch (Some d) ts = Some d"
  by (induction ts) (simp_all add: touch_def opt_attrs_def)

lemma foldl_touch_inv:
  assumes "I c" and "\<And>c t. t \<in> set ts \<Longrightarrow> I c \<Longrightarrow> I (touch c t)"
  shows "I (foldl touch c ts)"
  using assms by (induction ts arbitrary: c) simp_all

lemma map_of_dict_update:
  "distinct (map fst t) \<Longrightarrow>
     map_of (dict_update d t) x = (case map_of t x of Some v \<Rightarrow> Some v | None \<Rightarrow> map_of d x)"
proof (induction t arbitrary: d)
  case Nil
  show ?case by simp
next
  case (Cons kv t)
  have step: "dict_update d (kv # t) = dict_update (AList.update (fst kv) (snd kv) d) t"
    by (simp add: dict_update_def)
  from Cons.prems have d: "distinct (map fst t)" and nk: "fst kv \<notin> fst ` set t" by auto
  from nk have none: "map_of t (fst kv) = None" by (simp add: map_of_eq_None_iff)
  show ?case
    unfolding step Cons.IH [OF d]
    using none by (cases kv) (auto simp add: update_conv' split: option.splits)
qed

lemma node_attrs_parse:
  "node_attrs (parse w fs) k = foldl touch None (node_proj k (parse_ops w fs))"
  by (simp add: parse_run node_attrs_run)

lemma node_absent_iff:
  "node_attrs (parse w fs) k = None \<longleftrightarrow> (\<forall>op \<in> set (parse_ops w fs). k \<notin> op_keys op)"
proof -
  have "foldl touch None ts = None \<longleftrightarrow> ts = []" for ts
    using foldl_touch_Some [of ts None] by (cases "ts = []") auto
  then show ?thesis by (simp add: node_attrs_parse node_proj_Nil_iff)
qed

lemma touched_keys:
  assumes "op \<in> set (parse_ops w fs)" "k \<in> op_keys op"
  shows "k \<in> set (py_files w) \<or> (\<exists>rel n. declared w fs rel n \<and> k = decl_id rel n)"
proof -
  let ?files = "parsed_files w fs"
  from assms(1) consider
      (col) "op \<in> set (collect_files w)"
    | (add) "op \<in> set (add_nodes_and_edges ?files)"
    | (res) "op \<in> set (resolve_calls_basic ?files)"
    unfolding parse_ops_def by auto
  then show ?thesis
  proof cases
    case col
    with assms(2) show ?thesis by (auto simp add: collect_files_mem)
  next
    case add
    then obtain x where x: "x \<in> set ?files" and m: "op \<in> set (file_ops ?files x)"
      unfolding add_nodes_and_edges_mem by blast
    obtain rel pf where xp: "x = (rel, pf)" by (cases x)
    from x xp obtain body where rel: "rel \<in> set (py_files w)" and body: "fs rel = Some body"
      and pf: "pf = index_body rel body" by (auto simp add: parsed_files_mem)
    from m consider
        (cls) c where "c \<in> set (pf_classes pf)"
          "op = AddNode (decl_id rel (fst c)) (class_kwargs rel c) \<or>
           op = AddEdge rel (decl_id rel (fst c)) (lbl ''defined_in'')"
      | (fn) f where "f \<in> set (pf_functions pf)"
          "op = AddNode (decl_id rel (fst f)) (function_kwargs rel f) \<or>
           op = AddEdge rel (decl_id rel (fst f)) (lbl ''defined_in'')"
      | (imp) q mo where "find (\<lambda>other. basename other = mo @ ''.py'') (map fst ?files) = Some q"
          "op = AddEdge rel q (lbl ''file_import'')"
      unfolding xp file_ops_mem by blast
    then show ?thesis
    proof cases
      case cls
      from cls(1) have "declared w fs rel (fst c)"
        unfolding declared_def using rel body pf by force
      then have "\<exists>r n. declared w fs r n \<and> decl_id rel (fst c) = decl_id r n" by blast
      moreover from cls(2) assms(2) have "k = decl_id rel (fst c) \<or> k = rel" by auto
      ultimately show ?thesis using rel by blast
    next
      case fn
      from fn(1) have "declared w fs rel (fst f)"
        unfolding declared_def using rel body pf by force
      then have "\<exists>r n. declared w fs r n \<and> decl_id rel (fst f) = decl_id r n" by blast
      moreover from fn(2) assms(2) have "k = decl_id rel (fst f) \<or> k = rel" by auto
      ultimately show ?thesis using rel by blast
    next
      case imp
      from find_mem [OF imp(1)] have "q \<in> set (py_files w)"
        by (simp add: analysed_keys analysed_mem)
      moreover from imp(2) assms(2) have "k = rel \<or> k = q" by auto
      ultimately show ?thesis using rel by blast
    qed
  next
    case res
    then obtain x where x: "x \<in> set ?files" and m: "op \<in> set (file_call_ops x)"
      unfolding resolve_calls_basic_mem by blast
    obtain rel pf where xp: "x = (rel, pf)" by (cases x)
    from x xp obtain body where rel: "rel \<in> set (py_files w)" and body: "fs rel = Some body"
      and pf: "pf = index_body rel body" by (auto simp add: parsed_files_mem)
    from m obtain f t where f: "f \<in> set (pf_functions pf)"
      and t: "t \<in> fst ` set (pf_functions pf)"
      and op: "op = AddEdge (decl_id rel (fst f)) (decl_id rel t) (lbl ''calls'')"
      unfolding xp file_call_ops_mem by auto
    from f have "declared w fs rel (fst f)"
      unfolding declared_def using rel body pf by force
    then have a: "\<exists>r n. declared w fs r n \<and> decl_id rel (fst f) = decl_id r n" by blast
    from t have "declared w fs rel t"
      unfolding declared_def using rel body pf by force
    then have b: "\<exists>r n. declared w fs r n \<and> decl_id rel t = decl_id r n" by blast
    from op assms(2) have "k = decl_id rel (fst f) \<or> k = decl_id rel t" by auto
    with a b show ?thesis by blast
  qed
qed

lemma declared_valid: "names_ok w fs \<Longrightarrow> declared w fs rel n \<Longrightarrow> valid_name n"
  unfolding declared_def
  using names_ok_valid [of w fs rel "index_body rel body" n for body]
  by (auto simp add: parsed_files_mem)

lemma declared_not_file:
  assumes "names_ok w fs" "declared w fs rel n"
  shows "decl_id rel n \<notin> set (py_files w)"
  using decl_id_not_py [OF declared_valid [OF assms]] py_files_endswith by blast

lemma add_node_origin:
  assumes "AddNode k a \<in> set (parse_ops w fs)"
  shows "(k \<in> set (py_files w) \<and> a = file_kwargs k) \<or>
         (\<exists>rel n c. declared w fs rel n \<and> k = decl_id rel n \<and> fst c = n \<and>
            (a = class_kwargs rel c \<or> a = function_kwargs rel c))"
proof -
  let ?files = "parsed_files w fs"
  from assms consider
      (col) "AddNode k a \<in> set (collect_files w)"
    | (add) "AddNode k a \<in> set (add_nodes_and_edges ?files)"
    unfolding parse_ops_def by (auto simp add: resolve_calls_basic_mem file_call_ops_mem)
  then show ?thesis
  proof cases
    case col
    then show ?thesis by (auto simp add: collect_files_mem)
  next
    case add
    then obtain x where x: "x \<in> set ?files" and m: "AddNode k a \<in> set (file_ops ?files x)"
      unfolding add_nodes_and_edges_mem by blast
    obtain rel pf where xp: "x = (rel, pf)" by (cases x)
    from x xp obtain body where rel: "rel \<in> set (py_files w)" and body: "fs rel = Some body"
      and pf: "pf = index_body rel body" by (auto simp add: parsed_files_mem)
    from m consider
        (cls) c where "c \<in> set (pf_classes pf)" "k = decl_id rel (fst c)" "a = class_kwargs rel c"
      | (fn) f where "f \<in> set (pf_functions pf)" "k = decl_id rel (fst f)" "a = function_kwargs rel f"
      unfolding xp file_ops_mem by auto
    then show ?thesis
    proof cases
      case cls
      from cls(1) have "declared w fs rel (fst c)"
        unfolding declared_def using rel body pf by force
      with cls show ?thesis by blast
    next
      case fn
      from fn(1) have "declared w fs rel (fst f)"
        unfolding declared_def using rel body pf by force
      with fn show ?thesis by blast
    qed
  qed
qed

lemma kwargs_facts:
  "distinct (map fst (class_kwargs rel c))"
  "distinct (map fst (function_kwargs rel c))"
  "map_of (class_kwargs rel c) ''file'' = Some (AStr rel)"
  "map_of (function_kwargs rel c) ''file'' = Some (AStr rel)"
  "map_of (class_kwargs rel c) ''type'' = Some (AStr ''class'')"
  "map_of (function_kwargs rel c) ''type'' = Some (AStr ''function'')"
  "map_of (file_kwargs rel) ''type'' = Some (AStr ''file'')"
  by (simp_all add: class_kwargs_def function_kwargs_def file_kwargs_def Let_def)

lemma file_node_attrs:
  assumes ok: "names_ok w fs" and k: "k \<in> set (py_files w)"
  shows "node_attrs (parse w fs) k = Some (file_kwargs k)"
proof -
  let ?C = "collect_files w"
  let ?rest = "add_nodes_and_edges (parsed_files w fs) @ resolve_calls_basic (parsed_files w fs)"
  have all: "t = file_kwargs k \<or> t = []" if "t \<in> set (node_proj k (parse_ops w fs))" for t
  proof -
    from that consider "AddNode k t \<in> set (parse_ops w fs)" | "t = []"
      by (auto simp add: node_proj_mem)
    then show ?thesis
    proof cases
      case 1
      from add_node_origin [OF 1] declared_not_file [OF ok] k show ?thesis by blast
    next
      case 2
      then show ?thesis by simp
    qed
  qed
  from k have "AddNode k (file_kwargs k) \<in> set ?C" by (auto simp add: collect_files_mem)
  then have "file_kwargs k \<in> set (node_proj k ?C)" by (simp add: node_proj_mem)
  then obtain t ts where c: "node_proj k ?C = t # ts" by (cases "node_proj k ?C") auto
  then have "t \<in> set (node_proj k ?C)" by simp
  then have "AddNode k t \<in> set ?C"
    by (auto simp add: node_proj_mem collect_files_mem)
  then have t: "t = file_kwargs k" by (auto simp add: collect_files_mem)
  have split: "node_proj k (parse_ops w fs) = file_kwargs k # (ts @ node_proj k ?rest)"
    by (simp add: parse_ops_def c t)
  have keep: "\<forall>t \<in> set (ts @ node_proj k ?rest). dict_update (file_kwargs k) t = file_kwargs k"
  proof
    fix t' assume "t' \<in> set (ts @ node_proj k ?rest)"
    then have "t' \<in> set (node_proj k (parse_ops w fs))" unfolding split by simp
    from all [OF this] show "dict_update (file_kwargs k) t' = file_kwargs k"
      by (auto simp add: dict_update_file_kwargs)
  qed
  show ?thesis
    unfolding node_attrs_parse split
    using foldl_touch_keep [OF keep]
    by (simp add: touch_def opt_attrs_def dict_update_file_kwargs)
qed

lemma decl_node_file:
  assumes ok: "names_ok w fs" and a: "node_attrs (parse w fs) k = Some a"
    and ty: "map_of a ''type'' = Some (AStr ''class'') \<or> map_of a ''type'' = Some (AStr ''function'')"
  shows "\<exists>rel n. declared w fs rel n \<and> k = decl_id rel n \<and> map_of a ''file'' = Some (AStr rel)"
proof -
  let ?J = "\<lambda>c. \<forall>d. c = Some d \<longrightarrow> d = [] \<or>
      (\<exists>rel n. declared w fs rel n \<and> k = decl_id rel n \<and> map_of d ''file'' = Some (AStr rel))"
  have nf: "k \<notin> set (py_files w)"
  proof
    assume "k \<in> set (py_files w)"
    from file_node_attrs [OF ok this] a ty show False by (auto simp add: kwargs_facts)
  qed
  have "?J (foldl touch None (node_proj k (parse_ops w fs)))"
  proof (rule foldl_touch_inv)
    show "?J None" by simp
  next
    fix c t
    assume t: "t \<in> set (node_proj k (parse_ops w fs))" and J: "?J c"
    from t consider "AddNode k t \<in> set (parse_ops w fs)" | "t = []"
      by (auto simp add: node_proj_mem)
    then show "?J (touch c t)"
    proof cases
      case 1
      from add_node_origin [OF 1] nf obtain rel n x where d: "declared w fs rel n"
        and kk: "k = decl_id rel n" and tt: "t = class_kwargs rel x \<or> t = function_kwargs rel x"
        by blast
      from tt have "map_of (dict_update (opt_attrs c) t) ''file'' = Some (AStr rel)"
        by (auto simp add: map_of_dict_update kwargs_facts)
      with d kk show ?thesis unfolding touch_def by blast
    next
      case 2
      with J show ?thesis by (cases c) (simp_all add: touch_def opt_attrs_def)
    qed
  qed
  with a have "a = [] \<or>
      (\<exists>rel n. declared w fs rel n \<and> k = decl_id rel n \<and> map_of a ''file'' = Some (AStr rel))"
    by (simp add: node_attrs_parse)
  with ty show ?thesis by auto
qed

lemma defined_in_op:
  assumes "declared w fs rel n"
  shows "AddEdge rel (decl_id rel n) (lbl ''defined_in'') \<in> set (parse_ops w fs)"
    and "\<exists>a. AddNode (decl_id rel n) a \<in> set (parse_ops w fs)"
proof -
  let ?files = "parsed_files w fs"
  from assms obtain body where rel: "rel \<in> set (py_files w)" and body: "fs rel = Some body"
    and n: "n \<in> fst ` set (pf_classes (index_body rel body)) \<union>
                fst ` set (pf_functions (index_body rel body))"
    unfolding declared_def by blast
  have x: "(rel, index_body rel body) \<in> set ?files" using rel body by (simp add: parsed_files_mem)
  from n have "AddEdge rel (decl_id rel n) (lbl ''defined_in'')
      \<in> set (file_ops ?files (rel, index_body rel body))"
    unfolding file_ops_mem by force
  with x have "AddEdge rel (decl_id rel n) (lbl ''defined_in'') \<in> set (add_nodes_and_edges ?files)"
    unfolding add_nodes_and_edges_mem by blast
  then show "AddEdge rel (decl_id rel n) (lbl ''defined_in'') \<in> set (parse_ops w fs)"
    by (simp add: parse_ops_def)
  from n have "\<exists>a. AddNode (decl_id rel n) a \<in> set (file_ops ?files (rel, index_body rel body))"
    unfolding file_ops_mem by force
  with x have "\<exists>a. AddNode (decl_id rel n) a \<in> set (add_nodes_and_edges ?files)"
    unfolding add_nodes_and_edges_mem by blast
  then show "\<exists>a. AddNode (decl_id rel n) a \<in> set (parse_ops w fs)"
    by (auto simp add: parse_ops_def)
qed

lemma defined_in_origin:
  assumes "AddEdge u v (lbl ''defined_in'') \<in> set (parse_ops w fs)"
  shows "\<exists>n. declared w fs u n \<and> v = decl_id u n"
proof -
  let ?files = "parsed_files w fs"
  from assms have "AddEdge u v (lbl ''defined_in'') \<in> set (add_nodes_and_edges ?files)"
    unfolding parse_ops_def using edge_in_collect edge_in_resolve by fastforce
  then obtain x where x: "x \<in> set ?files"
    and m: "AddEdge u v (lbl ''defined_in'') \<in> set (file_ops ?files x)"
    unfolding add_nodes_and_edges_mem by blast
  obtain rel pf where xp: "x = (rel, pf)" by (cases x)
  from x xp obtain body where rel: "rel \<in> set (py_files w)" and body: "fs rel = Some body"
    and pf: "pf = index_body rel body" by (auto simp add: parsed_files_mem)
  from m obtain c where "c \<in> set (pf_classes pf) \<or> c \<in> set (pf_functions pf)"
    and u: "u = rel" and v: "v = decl_id rel (fst c)"
    unfolding xp file_ops_mem by auto
  then have "declared w fs rel (fst c)"
    unfolding declared_def using rel body pf by force
  with u v show ?thesis by blast
qed

lemma edge_source_origin:
  assumes "AddEdge u v a \<in> set (parse_ops w fs)"
  shows "(u \<in> set (py_files w) \<and> fs u \<noteq> None) \<or> (\<exists>rel n. declared w fs rel n \<and> u = decl_id rel n)"
proof -
  let ?files = "parsed_files w fs"
  from assms consider
      (add) "AddEdge u v a \<in> set (add_nodes_and_edges ?files)"
    | (res) "AddEdge u v a \<in> set (resolve_calls_basic ?files)"
    unfolding parse_ops_def using edge_in_collect by auto
  then show ?thesis
  proof cases
    case add
    then obtain x where x: "x \<in> set ?files" and m: "AddEdge u v a \<in> set (file_ops ?files x)"
      unfolding add_nodes_and_edges_mem by blast
    obtain rel pf where xp: "x = (rel, pf)" by (cases x)
    from m have "u = rel" unfolding xp file_ops_mem by auto
    with x xp show ?thesis by (auto simp add: parsed_files_mem)
  next
    case res
    then obtain x where x: "x \<in> set ?files" and m: "AddEdge u v a \<in> set (file_call_ops x)"
      unfolding resolve_calls_basic_mem by blast
    obtain rel pf where xp: "x = (rel, pf)" by (cases x)
    from x xp obtain body where rel: "rel \<in> set (py_files w)" and body: "fs rel = Some body"
      and pf: "pf = index_body rel body" by (auto simp add: parsed_files_mem)
    from m obtain f where f: "f \<in> set (pf_functions pf)" and u: "u = decl_id rel (fst f)"
      unfolding xp file_call_ops_mem by auto
    from f have "declared w fs rel (fst f)"
      unfolding declared_def using rel body pf by force
    with u show ?thesis by blast
  qed
qed

lemma node_type_attr: "node_type g k = node_attr g k ''type''"
  by (simp add: node_type_def node_attr_def)

lemma singleton_filter_length:
  assumes "distinct xs" "set (filter P xs) = {e}"
  shows "length (filter P xs) = 1"
proof -
  from assms(1) have "distinct (filter P xs)" by simp
  then have "length (filter P xs) = card (set (filter P xs))" by (rule distinct_card [symmetric])
  with assms(2) show ?thesis by simp
qed

text \<open>
  Claim C3. A discovered source file \<open>p\<close> that does not parse keeps its file node, with
  the attributes it was created with; the built graph has no node \<open>p::n\<close> for any
  identifier \<open>n\<close> and no class or function node whose \<open>file\<close> attribute is \<open>p\<close>; no
  edge leaves \<open>p\<close>; and the build goes on for the other files: every class or function
  \<open>n\<close> that a parsing file \<open>q\<close> declares has its node \<open>q::n\<close> and its \<open>defined_in\<close>
  edge from the file node of \<open>q\<close>. Top-level names are taken to be Python identifiers.
\<close>

theorem parse_failure_isolated:
  assumes "names_ok w fs" and "p \<in> set (py_files w)" and "fs p = None"
  shows "node_attrs (parse w fs) p = Some [(''type'', AStr ''file''), (''display_name'', AStr p)] \<and>
         node_type (parse w fs) p = Some (AStr ''file'') \<and>
         (\<forall>n. valid_name n \<longrightarrow> node_attrs (parse w fs) (p @ ''::'' @ n) = None) \<and>
         (\<forall>k. node_type (parse w fs) k = Some (AStr ''class'') \<or>
               node_type (parse w fs) k = Some (AStr ''function'') \<longrightarrow>
               node_attr (parse w fs) k ''file'' \<noteq> Some (AStr p)) \<and>
         (\<forall>v. edge_attrs (parse w fs) p v = None) \<and>
         (\<forall>q n. declared w fs q n \<longrightarrow>
            node_type (parse w fs) q = Some (AStr ''file'') \<and>
            node_attrs (parse w fs) (q @ ''::'' @ n) \<noteq> None \<and>
            edge_label (parse w fs) q (q @ ''::'' @ n) = Some (AStr ''defined_in''))"
proof (intro conjI allI impI)
  let ?g = "parse w fs"
  note ok = assms(1)
  have np: "\<not> declared w fs p n" for n using assms(3) by (simp add: declared_def)
  show fa: "node_attrs ?g p = Some [(''type'', AStr ''file''), (''display_name'', AStr p)]"
    using file_node_attrs [OF ok assms(2)] by (simp add: file_kwargs_def)
  then show "node_type ?g p = Some (AStr ''file'')" by (simp add: node_type_def)
  show "node_attrs ?g (p @ ''::'' @ n) = None" if v: "valid_name n" for n
  proof -
    have "decl_id p n \<notin> op_keys op" if op: "op \<in> set (parse_ops w fs)" for op
    proof
      assume "decl_id p n \<in> op_keys op"
      from touched_keys [OF op this] consider "decl_id p n \<in> set (py_files w)"
        | rel n' where "declared w fs rel n'" "decl_id p n = decl_id rel n'" by blast
      then show False
      proof cases
        case 1
        with decl_id_not_py [OF v] py_files_endswith show False by blast
      next
        case 2
        from decl_id_inj [OF v declared_valid [OF ok 2(1)] 2(2)] 2(1) np show False by simp
      qed
    qed
    then show ?thesis by (simp add: node_absent_iff decl_id_def)
  qed
  show "node_attr ?g k ''file'' \<noteq> Some (AStr p)"
    if "node_type ?g k = Some (AStr ''class'') \<or> node_type ?g k = Some (AStr ''function'')" for k
  proof -
    from that obtain a where a: "node_attrs ?g k = Some a"
      and ty: "map_of a ''type'' = Some (AStr ''class'') \<or> map_of a ''type'' = Some (AStr ''function'')"
      by (auto simp add: node_type_def split: option.splits)
    from decl_node_file [OF ok a ty] obtain rel n where "declared w fs rel n"
      and "map_of a ''file'' = Some (AStr rel)" by blast
    with np a show ?thesis by (auto simp add: node_attr_def)
  qed
  show "edge_attrs ?g p v = None" for v
  proof (rule ccontr)
    assume "edge_attrs ?g p v \<noteq> None"
    then obtain a where "edge_attrs ?g p v = Some a" by auto
    then have op: "AddEdge p v a \<in> set (parse_ops w fs)" by (simp add: edge_attrs_iff [OF ok])
    from edge_source_origin [OF op] assms(3)
    obtain rel n where d: "declared w fs rel n" and e: "p = decl_id rel n" by auto
    from declared_not_file [OF ok d] e assms(2) show False by simp
  qed
  fix q n
  assume d: "declared w fs q n"
  then have q: "q \<in> set (py_files w)" by (auto simp add: declared_def)
  from file_node_attrs [OF ok q] show "node_type ?g q = Some (AStr ''file'')"
    by (simp add: node_type_def kwargs_facts)
  from defined_in_op(2) [OF d] obtain a where "AddNode (decl_id q n) a \<in> set (parse_ops w fs)"
    by blast
  then have "\<exists>op \<in> set (parse_ops w fs). decl_id q n \<in> op_keys op" by force
  then show "node_attrs ?g (q @ ''::'' @ n) \<noteq> None"
    by (simp add: node_absent_iff decl_id_def)
  from defined_in_op(1) [OF d] show "edge_label ?g q (q @ ''::'' @ n) = Some (AStr ''defined_in'')"
    by (simp add: edge_label_iff [OF ok] decl_id_def)
qed

theorem parse_failure_isolated_witness:
  "names_ok isolation_walk isolation_fs \<and> ''bad.py'' \<in> set (py_files isolation_walk) \<and>
   isolation_fs ''bad.py'' = None \<and> declared isolation_walk isolation_fs ''good.py'' ''f'' \<and>
   node_type (parse isolation_walk isolation_fs) ''bad.py'' = Some (AStr ''file'') \<and>
   node_attrs (parse isolation_walk isolation_fs) ''bad.py::f'' = None \<and>
   edge_attrs (parse isolation_walk isolation_fs) ''bad.py'' ''good.py'' = None \<and>
   node_attrs (parse isolation_walk isolation_fs) ''good.py::f'' \<noteq> None \<and>
   edge_label (parse isolation_walk isolation_fs) ''good.py'' ''good.py::f'' = Some (AStr ''defined_in'')"
proof -
  have h1: "names_ok isolation_walk isolation_fs" by code_simp
  have h2: "''bad.py'' \<in> set (py_files isolation_walk)" by code_simp
  have h3: "isolation_fs ''bad.py'' = None" by (simp add: isolation_fs_def)
  have h4: "valid_name ''f''" by (simp add: valid_name_def)
  have h5: "declared isolation_walk isolation_fs ''good.py'' ''f''"
    unfolding declared_def
    by (rule exI [of _ "the (isolation_fs ''good.py'')"]) code_simp
  from parse_failure_isolated [OF h1 h2 h3] h4 h5
  have "node_type (parse isolation_walk isolation_fs) ''bad.py'' = Some (AStr ''file'')"
    and "node_attrs (parse isolation_walk isolation_fs) (''bad.py'' @ ''::'' @ ''f'') = None"
    and "edge_attrs (parse isolation_walk isolation_fs) ''bad.py'' ''good.py'' = None"
    and "node_attrs (parse isolation_walk isolation_fs) (''good.py'' @ ''::'' @ ''f'') \<noteq> None"
    and "edge_label (parse isolation_walk isolation_fs) ''good.py'' (''good.py'' @ ''::'' @ ''f'')
           = Some (AStr ''defined_in'')"
    by blast+
  with h1 h2 h3 h5 show ?thesis by simp
qed

text \<open>
  Claim C5. Every node of the built graph whose type is \<open>class\<close> or \<open>function\<close> has a
  \<open>file\<close> attribute \<open>rel\<close> such that \<open>rel\<close> is a file node, the edge from \<open>rel\<close> to
  the node is labelled \<open>defined_in\<close>, no other node has a \<open>defined_in\<close> edge to it,
  and the edge list holds exactly one \<open>defined_in\<close> entry that ends in the node.
  Top-level names are taken to be Python identifiers.
\<close>

theorem defined_in_complete:
  assumes "names_ok w fs"
    and "node_type (parse w fs) k = Some (AStr ''class'') \<or>
         node_type (parse w fs) k = Some (AStr ''function'')"
  shows "\<exists>rel. node_attr (parse w fs) k ''file'' = Some (AStr rel) \<and>
           node_type (parse w fs) rel = Some (AStr ''file'') \<and>
           edge_label (parse w fs) rel k = Some (AStr ''defined_in'') \<and>
           (\<forall>u. edge_label (parse w fs) u k = Some (AStr ''defined_in'') \<longrightarrow> u = rel) \<and>
           length (filter (\<lambda>e. snd (fst e) = k \<and> map_of (snd e) ''label'' = Some (AStr ''defined_in''))
             (edges (parse w fs))) = 1"
proof -
  let ?g = "parse w fs"
  note ok = assms(1)
  from assms(2) obtain a where a: "node_attrs ?g k = Some a"
    and ty: "map_of a ''type'' = Some (AStr ''class'') \<or> map_of a ''type'' = Some (AStr ''function'')"
    by (auto simp add: node_type_def split: option.splits)
  from decl_node_file [OF ok a ty] obtain rel n where d: "declared w fs rel n"
    and k: "k = decl_id rel n" and f: "map_of a ''file'' = Some (AStr rel)" by blast
  from d have rel: "rel \<in> set (py_files w)" by (auto simp add: declared_def)
  have c1: "node_attr ?g k ''file'' = Some (AStr rel)" using a f by (simp add: node_attr_def)
  have c2: "node_type ?g rel = Some (AStr ''file'')"
    using file_node_attrs [OF ok rel] by (simp add: node_type_def kwargs_facts)
  have c3: "edge_label ?g rel k = Some (AStr ''defined_in'')"
    using defined_in_op(1) [OF d] by (simp add: edge_label_iff [OF ok] k)
  have c4: "u = rel" if "edge_label ?g u k = Some (AStr ''defined_in'')" for u
  proof -
    from that have "AddEdge u k (lbl ''defined_in'') \<in> set (parse_ops w fs)"
      by (simp add: edge_label_iff [OF ok])
    from defined_in_origin [OF this] obtain n' where d': "declared w fs u n'"
      and k': "k = decl_id u n'" by blast
    from k k' have "decl_id rel n = decl_id u n'" by simp
    from decl_id_inj [OF declared_valid [OF ok d] declared_valid [OF ok d'] this]
    show ?thesis by simp
  qed
  let ?P = "\<lambda>e. snd (fst e) = k \<and> map_of (snd e) ''label'' = Some (AStr ''defined_in'')"
  have dist: "distinct (map fst (edges ?g))" by (rule distinct_edges_parse)
  have "set (filter ?P (edges ?g)) = {((rel, k), lbl ''defined_in'')}"
  proof (intro equalityI subsetI)
    fix e assume "e \<in> set (filter ?P (edges ?g))"
    then have e: "e \<in> set (edges ?g)" and p: "?P e" by auto
    obtain u v b where ee: "e = ((u, v), b)" by (cases e) auto
    from e dist ee have "map_of (edges ?g) (u, v) = Some b" by simp
    then have ea: "edge_attrs ?g u v = Some b" by (simp add: edge_attrs_def)
    with p ee have "edge_label ?g u k = Some (AStr ''defined_in'')" by (simp add: edge_label_def)
    from c4 [OF this] have u: "u = rel" .
    from ea have "AddEdge u v b \<in> set (parse_ops w fs)" by (simp add: edge_attrs_iff [OF ok])
    from edge_op_kind [OF ok this] p ee have "b = lbl ''defined_in''"
      by (auto simp add: edge_label_lbl)
    with u p ee show "e \<in> {((rel, k), lbl ''defined_in'')}" by simp
  next
    fix e assume "e \<in> {((rel, k), lbl ''defined_in'')}"
    then have e: "e = ((rel, k), lbl ''defined_in'')" by simp
    from defined_in_op(1) [OF d] have "edge_attrs ?g rel k = Some (lbl ''defined_in'')"
      by (simp add: edge_attrs_iff [OF ok] k)
    then have "((rel, k), lbl ''defined_in'') \<in> set (edges ?g)"
      by (simp add: edge_attrs_def map_of_SomeD)
    with e show "e \<in> set (filter ?P (edges ?g))" by (simp add: edge_label_lbl)
  qed
  moreover from dist have "distinct (edges ?g)" by (rule distinct_map [THEN iffD1, THEN conjunct1])
  ultimately have c5: "length (filter ?P (edges ?g)) = 1" by (rule singleton_filter_length [rotated])
  from c1 c2 c3 c4 c5 show ?thesis by blast
qed

theorem defined_in_complete_witness:
  "names_ok test_repo_walk test_repo_fs \<and>
   node_type (parse test_repo_walk test_repo_fs) ''file1.py::Player'' = Some (AStr ''class'') \<and>
   node_attr (parse test_repo_walk test_repo_fs) ''file1.py::Player'' ''file'' = Some (AStr ''file1.py'') \<and>
   node_type (parse test_repo_walk test_repo_fs) ''file1.py'' = Some (AStr ''file'') \<and>
   edge_label (parse test_repo_walk test_repo_fs) ''file1.py'' ''file1.py::Player''
     = Some (AStr ''defined_in'') \<and>
   length (filter (\<lambda>e. snd (fst e) = ''file1.py::Player'' \<and>
                       map_of (snd e) ''label'' = Some (AStr ''defined_in''))
     (edges (parse test_repo_walk test_repo_fs))) = 1"
proof -
  have h1: "names_ok test_repo_walk test_repo_fs" by code_simp
  have h2: "node_type (parse test_repo_walk test_repo_fs) ''file1.py::Player'' = Some (AStr ''class'')"
    by code_simp
  have h3: "node_attr (parse test_repo_walk test_repo_fs) ''file1.py::Player'' ''file''
              = Some (AStr ''file1.py'')"
    by code_simp
  from h2 have h2': "node_type (parse test_repo_walk test_repo_fs) ''file1.py::Player'' = Some (AStr ''class'') \<or>
      node_type (parse test_repo_walk test_repo_fs) ''file1.py::Player'' = Some (AStr ''function'')"
    by simp
  from defined_in_complete [OF h1 h2'] h3 h1 h2 show ?thesis by auto
qed

lemma find_unique_iff:
  assumes "distinct xs" "length (filter P xs) \<le> 1"
  shows "find P xs = Some x \<longleftrightarrow> x \<in> set xs \<and> P x"
proof
  assume "find P xs = Some x"
  then show "x \<in> set xs \<and> P x" by (rule find_mem)
next
  assume x: "x \<in> set xs \<and> P x"
  then have "find P xs \<noteq> None" by (auto simp add: find_None_iff)
  then obtain y where y: "find P xs = Some y" by auto
  from find_mem [OF y] have y': "y \<in> set xs \<and> P y" .
  from assms(1) have "distinct (filter P xs)" by simp
  then have "card (set (filter P xs)) = length (filter P xs)" by (rule distinct_card)
  with assms(2) have c: "card (set (filter P xs)) \<le> Suc 0" by simp
  have "\<forall>a \<in> set (filter P xs). \<forall>b \<in> set (filter P xs). a = b"
    using c by (simp only: card_le_Suc0_iff_eq [OF finite_set])
  moreover from x y' have "x \<in> set (filter P xs)" "y \<in> set (filter P xs)" by simp_all
  ultimately have "x = y" by blast
  with y show "find P xs = Some x" by simp
qed

lemma filter_length_set:
  assumes "distinct xs" "distinct ys" "set xs = set ys"
  shows "length (filter P xs) = length (filter P ys)"
proof -
  from assms(1) have "distinct (filter P xs)" by simp
  then have a: "card (set (filter P xs)) = length (filter P xs)" by (rule distinct_card)
  from assms(2) have "distinct (filter P ys)" by simp
  then have b: "card (set (filter P ys)) = length (filter P ys)" by (rule distinct_card)
  from assms(3) have "set (filter P xs) = set (filter P ys)" by simp
  with a b show ?thesis by simp
qed

lemma find_unique_perm:
  assumes "distinct xs" "distinct ys" "set xs = set ys" "length (filter P xs) \<le> 1"
  shows "find P xs = find P ys"
proof -
  from assms have ly: "length (filter P ys) \<le> 1" using filter_length_set [of xs ys P] by simp
  have a: "find P xs = Some x \<longleftrightarrow> x \<in> set xs \<and> P x" for x
    by (rule find_unique_iff [OF assms(1,4)])
  have b: "find P ys = Some x \<longleftrightarrow> x \<in> set ys \<and> P x" for x
    by (rule find_unique_iff [OF assms(2) ly])
  have c: "find P xs = Some x \<longleftrightarrow> find P ys = Some x" for x
    unfolding a b assms(3) ..
  show ?thesis
  proof (cases "find P xs")
    case None
    with c show ?thesis by (cases "find P ys") auto
  next
    case (Some x)
    with c [of x] show ?thesis by simp
  qed
qed

lemma concat_map_none: "(\<forall>x \<in> set xs. g x = []) \<Longrightarrow> concat (map g xs) = []"
  by (induction xs) auto

lemma concat_map_single:
  assumes "distinct xs" "x0 \<in> set xs" "\<forall>x \<in> set xs. x \<noteq> x0 \<longrightarrow> g x = []"
  shows "concat (map g xs) = g x0"
  using assms
proof (induction xs)
  case Nil
  then show ?case by simp
next
  case (Cons x xs)
  show ?case
  proof (cases "x = x0")
    case True
    with Cons.prems have "\<forall>y \<in> set xs. g y = []" by auto
    then have "concat (map g xs) = []" by (rule concat_map_none)
    with True show ?thesis by simp
  next
    case False
    with Cons.prems have "g x = []" and "x0 \<in> set xs" by auto
    with Cons show ?thesis by simp
  qed
qed

lemma concat_map_perm:
  assumes "distinct xs" "distinct ys" "set xs = set ys"
    and "\<forall>x \<in> set xs. \<forall>y \<in> set xs. g x \<noteq> [] \<and> g y \<noteq> [] \<longrightarrow> x = y"
  shows "concat (map g xs) = concat (map g ys)"
proof (cases "\<exists>x0 \<in> set xs. g x0 \<noteq> []")
  case True
  then obtain x0 where x0: "x0 \<in> set xs" "g x0 \<noteq> []" by blast
  with assms(4) have o: "\<forall>x \<in> set xs. x \<noteq> x0 \<longrightarrow> g x = []" by blast
  from concat_map_single [OF assms(1) x0(1) o]
    concat_map_single [OF assms(2), of x0 g] x0(1) o assms(3)
  show ?thesis by simp
next
  case False
  then have "\<forall>x \<in> set xs. g x = []" by blast
  with assms(3) show ?thesis by (simp add: concat_map_none)
qed

lemma names_ok_cong: "set (py_files w1) = set (py_files w2) \<Longrightarrow> names_ok w1 fs = names_ok w2 fs"
  by (simp add: names_ok_def)

lemma parsed_files_set:
  "set (py_files w1) = set (py_files w2) \<Longrightarrow> set (parsed_files w1 fs) = set (parsed_files w2 fs)"
  by (auto simp add: parsed_files_mem)

lemma analysed_set:
  "set (py_files w1) = set (py_files w2) \<Longrightarrow> set (analysed w1 fs) = set (analysed w2 fs)"
  by (auto simp add: analysed_mem)

lemma distinct_analysed: "distinct (analysed w fs)"
  by (simp add: analysed_def)

lemma distinct_parsed_files_list: "distinct (parsed_files w fs)"
  using distinct_parsed_files [of w fs] by (simp add: distinct_map)

lemma file_ops_cong:
  assumes s: "set (py_files w1) = set (py_files w2)" and u: "unique_targets w1 fs"
    and x: "x \<in> set (parsed_files w1 fs)"
  shows "file_ops (parsed_files w1 fs) x = file_ops (parsed_files w2 fs) x"
proof -
  have eq: "import_ops (map fst (parsed_files w1 fs)) (fst x) m =
        import_ops (map fst (parsed_files w2 fs)) (fst x) m"
    if m: "m \<in> set (module_names (snd x))" for m
  proof -
    let ?P = "\<lambda>other_path. basename other_path = m @ ''.py''"
    from u x m have "length (filter ?P (analysed w1 fs)) \<le> 1"
      unfolding unique_targets_def by blast
    from find_unique_perm [OF distinct_analysed distinct_analysed analysed_set [OF s] this]
    have "find ?P (analysed w1 fs) = find ?P (analysed w2 fs)" .
    then show ?thesis by (simp add: import_ops_def analysed_keys)
  qed
  have m: "map (import_ops (map fst (parsed_files w1 fs)) (fst x)) (module_names (snd x)) =
        map (import_ops (map fst (parsed_files w2 fs)) (fst x)) (module_names (snd x))"
    by (rule map_cong) (simp_all add: eq)
  show ?thesis unfolding file_ops_def Let_def m ..
qed

lemma parse_ops_set:
  assumes s: "set (py_files w1) = set (py_files w2)" and u: "unique_targets w1 fs"
  shows "set (parse_ops w1 fs) = set (parse_ops w2 fs)"
proof -
  have c: "set (collect_files w1) = set (collect_files w2)"
    using s by (auto simp add: collect_files_mem)
  have "set (add_nodes_and_edges (parsed_files w1 fs)) =
          (\<Union>x \<in> set (parsed_files w1 fs). set (file_ops (parsed_files w1 fs) x))"
    by (simp add: add_nodes_and_edges_def)
  also have "\<dots> = (\<Union>x \<in> set (parsed_files w1 fs). set (file_ops (parsed_files w2 fs) x))"
    using file_ops_cong [OF s u] by simp
  also have "\<dots> = (\<Union>x \<in> set (parsed_files w2 fs). set (file_ops (parsed_files w2 fs) x))"
    by (simp only: parsed_files_set [OF s])
  also have "\<dots> = set (add_nodes_and_edges (parsed_files w2 fs))"
    by (simp add: add_nodes_and_edges_def)
  finally have a: "set (add_nodes_and_edges (parsed_files w1 fs)) =
           set (add_nodes_and_edges (parsed_files w2 fs))" .
  have r: "set (resolve_calls_basic (parsed_files w1 fs)) =
           set (resolve_calls_basic (parsed_files w2 fs))"
    using parsed_files_set [OF s, of fs] by (simp add: resolve_calls_basic_def)
  from c a r show ?thesis by (simp add: parse_ops_def)
qed

lemma option_eqI:
  assumes "\<And>a. x = Some a \<longleftrightarrow> y = Some a"
  shows "x = y"
proof (cases x)
  case None
  show ?thesis
  proof (cases y)
    case None
    with \<open>x = None\<close> show ?thesis by simp
  next
    case (Some b)
    with assms [of b] have "x = Some b" by simp
    with None show ?thesis by simp
  qed
next
  case (Some a)
  with assms [of a] have "y = Some a" by simp
  with Some show ?thesis by simp
qed

lemma edge_attrs_perm:
  assumes s: "set (py_files w1) = set (py_files w2)" and u: "unique_targets w1 fs"
    and ok: "names_ok w1 fs"
  shows "edge_attrs (parse w1 fs) u' v = edge_attrs (parse w2 fs) u' v"
proof (rule option_eqI)
  fix a
  from ok names_ok_cong [OF s, of fs] have ok2: "names_ok w2 fs" by simp
  have "(edge_attrs (parse w1 fs) u' v = Some a) = (AddEdge u' v a \<in> set (parse_ops w1 fs))"
    by (rule edge_attrs_iff [OF ok])
  also have "\<dots> = (AddEdge u' v a \<in> set (parse_ops w2 fs))"
    by (simp only: parse_ops_set [OF s u])
  also have "\<dots> = (edge_attrs (parse w2 fs) u' v = Some a)"
    by (rule edge_attrs_iff [OF ok2, symmetric])
  finally show "edge_attrs (parse w1 fs) u' v = Some a \<longleftrightarrow> edge_attrs (parse w2 fs) u' v = Some a" .
qed

lemma node_proj_concat: "node_proj k (concat xss) = concat (map (node_proj k) xss)"
  by (induction xss) (simp_all add: node_proj_def)

lemma block_keys:
  assumes x: "(rel, pf) \<in> set (parsed_files w fs)"
    and op: "op \<in> set (file_ops (parsed_files w fs) (rel, pf)) \<or> op \<in> set (file_call_ops (rel, pf))"
    and k: "k \<in> op_keys op"
  shows "k \<in> set (py_files w) \<or> (\<exists>n. declared w fs rel n \<and> k = decl_id rel n)"
proof -
  let ?files = "parsed_files w fs"
  from x obtain body where rel: "rel \<in> set (py_files w)" and body: "fs rel = Some body"
    and pf: "pf = index_body rel body" by (auto simp add: parsed_files_mem)
  have dc: "declared w fs rel (fst c)" if "c \<in> set (pf_classes pf)" for c
    using that unfolding declared_def using rel body pf by force
  have df: "declared w fs rel (fst f)" if "f \<in> set (pf_functions pf)" for f
    using that unfolding declared_def using rel body pf by force
  have dt: "declared w fs rel t" if "t \<in> fst ` set (pf_functions pf)" for t
    using that unfolding declared_def using rel body pf by force
  from op consider
      (cls) c where "c \<in> set (pf_classes pf)"
        "op = AddNode (decl_id rel (fst c)) (class_kwargs rel c) \<or>
         op = AddEdge rel (decl_id rel (fst c)) (lbl ''defined_in'')"
    | (fn) f where "f \<in> set (pf_functions pf)"
        "op = AddNode (decl_id rel (fst f)) (function_kwargs rel f) \<or>
         op = AddEdge rel (decl_id rel (fst f)) (lbl ''defined_in'')"
    | (imp) q mo where "find (\<lambda>other. basename other = mo @ ''.py'') (map fst ?files) = Some q"
        "op = AddEdge rel q (lbl ''file_import'')"
    | (call) f t where "f \<in> set (pf_functions pf)" "t \<in> fst ` set (pf_functions pf)"
        "op = AddEdge (decl_id rel (fst f)) (decl_id rel t) (lbl ''calls'')"
    unfolding file_ops_mem file_call_ops_mem by blast
  then show ?thesis
  proof cases
    case cls
    from cls(2) k have "k = decl_id rel (fst c) \<or> k = rel" by auto
    with dc [OF cls(1)] rel show ?thesis by blast
  next
    case fn
    from fn(2) k have "k = decl_id rel (fst f) \<or> k = rel" by auto
    with df [OF fn(1)] rel show ?thesis by blast
  next
    case imp
    from find_mem [OF imp(1)] have "q \<in> set (py_files w)"
      by (simp add: analysed_keys analysed_mem)
    moreover from imp(2) k have "k = rel \<or> k = q" by auto
    ultimately show ?thesis using rel by blast
  next
    case call
    from call(3) k have "k = decl_id rel (fst f) \<or> k = decl_id rel t" by auto
    with df [OF call(1)] dt [OF call(2)] show ?thesis by blast
  qed
qed

lemma same_key_same_file:
  assumes "x \<in> set (parsed_files w fs)" "y \<in> set (parsed_files w fs)" "fst x = fst y"
  shows "x = y"
proof -
  obtain r p where x: "x = (r, p)" by (cases x)
  obtain r' p' where y: "y = (r', p')" by (cases y)
  from assms show ?thesis unfolding x y by (auto simp add: parsed_files_mem)
qed

lemma one_block_touches:
  assumes ok: "names_ok w fs" and nf: "k \<notin> set (py_files w)"
    and x: "x \<in> set (parsed_files w fs)" and y: "y \<in> set (parsed_files w fs)"
    and gx: "\<exists>op. (op \<in> set (file_ops (parsed_files w fs) x) \<or> op \<in> set (file_call_ops x)) \<and> k \<in> op_keys op"
    and gy: "\<exists>op. (op \<in> set (file_ops (parsed_files w fs) y) \<or> op \<in> set (file_call_ops y)) \<and> k \<in> op_keys op"
  shows "x = y"
proof -
  obtain r1 p1 where x1: "x = (r1, p1)" by (cases x)
  obtain r2 p2 where y1: "y = (r2, p2)" by (cases y)
  from gx obtain op1 where o1: "op1 \<in> set (file_ops (parsed_files w fs) (r1, p1)) \<or> op1 \<in> set (file_call_ops (r1, p1))"
    and k1: "k \<in> op_keys op1" unfolding x1 by blast
  from gy obtain op2 where o2: "op2 \<in> set (file_ops (parsed_files w fs) (r2, p2)) \<or> op2 \<in> set (file_call_ops (r2, p2))"
    and k2: "k \<in> op_keys op2" unfolding y1 by blast
  from block_keys [OF x [unfolded x1] o1 k1] nf obtain n1 where d1: "declared w fs r1 n1"
    and e1: "k = decl_id r1 n1" by blast
  from block_keys [OF y [unfolded y1] o2 k2] nf obtain n2 where d2: "declared w fs r2 n2"
    and e2: "k = decl_id r2 n2" by blast
  from e1 e2 have "decl_id r1 n1 = decl_id r2 n2" by simp
  from decl_id_inj [OF declared_valid [OF ok d1] declared_valid [OF ok d2] this]
  have "r1 = r2" by simp
  with same_key_same_file [OF x y] x1 y1 show ?thesis by simp
qed

lemma node_proj_blocks_perm:
  assumes s: "set (py_files w1) = set (py_files w2)" and ok: "names_ok w1 fs"
    and nf: "k \<notin> set (py_files w1)"
    and h: "\<And>x. x \<in> set (parsed_files w1 fs) \<Longrightarrow> h1 x = h2 x"
    and sub: "\<And>x op. op \<in> set (h1 x) \<Longrightarrow>
        op \<in> set (file_ops (parsed_files w1 fs) x) \<or> op \<in> set (file_call_ops x)"
  shows "node_proj k (concat (map h1 (parsed_files w1 fs))) =
         node_proj k (concat (map h2 (parsed_files w2 fs)))"
proof -
  let ?F1 = "parsed_files w1 fs" and ?F2 = "parsed_files w2 fs"
  let ?g = "\<lambda>x. node_proj k (h1 x)"
  have one: "\<forall>x \<in> set ?F1. \<forall>y \<in> set ?F1. ?g x \<noteq> [] \<and> ?g y \<noteq> [] \<longrightarrow> x = y"
  proof (intro ballI impI)
    fix x y assume x: "x \<in> set ?F1" and y: "y \<in> set ?F1" and g: "?g x \<noteq> [] \<and> ?g y \<noteq> []"
    from g obtain o1 where "o1 \<in> set (h1 x)" "k \<in> op_keys o1" by (auto simp add: node_proj_Nil_iff)
    with sub have gx: "\<exists>op. (op \<in> set (file_ops ?F1 x) \<or> op \<in> set (file_call_ops x)) \<and> k \<in> op_keys op"
      by blast
    from g obtain o2 where "o2 \<in> set (h1 y)" "k \<in> op_keys o2" by (auto simp add: node_proj_Nil_iff)
    with sub have gy: "\<exists>op. (op \<in> set (file_ops ?F1 y) \<or> op \<in> set (file_call_ops y)) \<and> k \<in> op_keys op"
      by blast
    from one_block_touches [OF ok nf x y gx gy] show "x = y" .
  qed
  have "node_proj k (concat (map h1 ?F1)) = concat (map ?g ?F1)"
    by (simp add: node_proj_concat comp_def)
  also have "\<dots> = concat (map ?g ?F2)"
    by (rule concat_map_perm [OF distinct_parsed_files_list distinct_parsed_files_list
          parsed_files_set [OF s] one])
  also have "\<dots> = concat (map (\<lambda>x. node_proj k (h2 x)) ?F2)"
  proof -
    have "map ?g ?F2 = map (\<lambda>x. node_proj k (h2 x)) ?F2"
      by (rule map_cong) (simp_all add: h parsed_files_set [OF s, symmetric])
    then show ?thesis by (simp only:)
  qed
  also have "\<dots> = node_proj k (concat (map h2 ?F2))"
    by (simp add: node_proj_concat comp_def)
  finally show ?thesis .
qed

lemma node_attrs_perm:
  assumes s: "set (py_files w1) = set (py_files w2)" and u: "unique_targets w1 fs"
    and ok: "names_ok w1 fs"
  shows "node_attrs (parse w1 fs) k = node_attrs (parse w2 fs) k"
proof (cases "k \<in> set (py_files w1)")
  case True
  from ok names_ok_cong [OF s, of fs] have ok2: "names_ok w2 fs" by simp
  from True s have "k \<in> set (py_files w2)" by simp
  with file_node_attrs [OF ok True] file_node_attrs [OF ok2] show ?thesis by simp
next
  case False
  with s have f2: "k \<notin> set (py_files w2)" by simp
  have c1: "node_proj k (collect_files w1) = []"
    using False by (auto simp add: node_proj_Nil_iff collect_files_mem)
  have c2: "node_proj k (collect_files w2) = []"
    using f2 by (auto simp add: node_proj_Nil_iff collect_files_mem)
  have a: "node_proj k (add_nodes_and_edges (parsed_files w1 fs)) =
           node_proj k (add_nodes_and_edges (parsed_files w2 fs))"
    unfolding add_nodes_and_edges_def
    by (rule node_proj_blocks_perm [OF s ok False]) (simp_all add: file_ops_cong [OF s u])
  have r: "node_proj k (resolve_calls_basic (parsed_files w1 fs)) =
           node_proj k (resolve_calls_basic (parsed_files w2 fs))"
    unfolding resolve_calls_basic_def
    by (rule node_proj_blocks_perm [OF s ok False]) simp_all
  show ?thesis
    by (simp add: node_attrs_parse parse_ops_def c1 c2 a r)
qed

lemma distinct_nodes_parse: "distinct (map fst (nodes (parse w fs)))"
  unfolding parse_run by (rule distinct_nodes_run) (simp add: empty_graph_def)

text \<open>
  Two discovery orders of one tree give different graphs when two files share a
  basename: \<open>main.py\<close> imports \<open>util\<close>, and both \<open>a/util.py\<close> and \<open>b/util.py\<close>
  parse. Whichever of the two is discovered first gets the edge.
\<close>

theorem discovery_order_counterexample:
  "set (py_files dup_walk1) = set (py_files dup_walk2) \<and>
   edge_label (parse dup_walk1 dup_fs) ''main.py'' ''a/util.py'' = Some (AStr ''file_import'') \<and>
   edge_label (parse dup_walk2 dup_fs) ''main.py'' ''a/util.py'' = None \<and>
   set (edges (parse dup_walk1 dup_fs)) \<noteq> set (edges (parse dup_walk2 dup_fs))"
proof -
  have a: "set (py_files dup_walk1) = set (py_files dup_walk2)" by code_simp
  have b: "edge_label (parse dup_walk1 dup_fs) ''main.py'' ''a/util.py'' = Some (AStr ''file_import'')"
    by code_simp
  have c: "edge_label (parse dup_walk2 dup_fs) ''main.py'' ''a/util.py'' = None" by code_simp
  have d: "((''main.py'', ''a/util.py''), [(''label'', AStr ''file_import'')])
      \<in> set (edges (parse dup_walk1 dup_fs))" by code_simp
  have e: "((''main.py'', ''a/util.py''), [(''label'', AStr ''file_import'')])
      \<notin> set (edges (parse dup_walk2 dup_fs))" by code_simp
  from d e have "set (edges (parse dup_walk1 dup_fs)) \<noteq> set (edges (parse dup_walk2 dup_fs))"
    by blast
  with a b c show ?thesis by simp
qed

text \<open>
  Claim C2, amended. Two runs of \<open>parse\<close> over the same files with the same contents,
  discovered in different orders, build graphs with the same nodes with the same
  attributes and the same labelled edges, provided every root module name that a file
  refers to is the basename of at most one file that parses (\<open>unique_targets\<close>). Where
  two such files share the basename the first one discovered gets the edge, and the
  edge set depends on the order. Top-level names are taken to be Python identifiers.
\<close>

theorem discovery_order_independent:
  assumes "set (py_files w1) = set (py_files w2)" and "names_ok w1 fs"
    and "unique_targets w1 fs"
  shows "set (nodes (parse w1 fs)) = set (nodes (parse w2 fs)) \<and>
         set (edges (parse w1 fs)) = set (edges (parse w2 fs))"
proof
  have "map_of (nodes (parse w1 fs)) = map_of (nodes (parse w2 fs))"
  proof
    fix k
    from node_attrs_perm [OF assms(1,3,2), of k]
    show "map_of (nodes (parse w1 fs)) k = map_of (nodes (parse w2 fs)) k"
      by (simp add: node_attrs_def)
  qed
  then show "set (nodes (parse w1 fs)) = set (nodes (parse w2 fs))"
    by (simp add: map_of_inject_set [OF distinct_nodes_parse distinct_nodes_parse])
next
  have "map_of (edges (parse w1 fs)) = map_of (edges (parse w2 fs))"
  proof
    fix e :: "string \<times> string"
    obtain u v where e: "e = (u, v)" by (cases e)
    from edge_attrs_perm [OF assms(1,3,2), of u v]
    show "map_of (edges (parse w1 fs)) e = map_of (edges (parse w2 fs)) e"
      by (simp add: edge_attrs_def e)
  qed
  then show "set (edges (parse w1 fs)) = set (edges (parse w2 fs))"
    by (simp add: map_of_inject_set [OF distinct_edges_parse distinct_edges_parse])
qed

theorem discovery_order_independent_witness:
  "set (py_files test_repo_walk) = set (py_files test_repo_walk_rev) \<and>
   py_files test_repo_walk \<noteq> py_files test_repo_walk_rev \<and>
   names_ok test_repo_walk test_repo_fs \<and> unique_targets test_repo_walk test_repo_fs \<and>
   set (nodes (parse test_repo_walk test_repo_fs)) = set (nodes (parse test_repo_walk_rev test_repo_fs)) \<and>
   set (edges (parse test_repo_walk test_repo_fs)) = set (edges (parse test_repo_walk_rev test_repo_fs))"
proof -
  have h1: "set (py_files test_repo_walk) = set (py_files test_repo_walk_rev)" by code_simp
  have h2: "names_ok test_repo_walk test_repo_fs" by code_simp
  have h3: "unique_targets test_repo_walk test_repo_fs" by code_simp
  have h4: "py_files test_repo_walk \<noteq> py_files test_repo_walk_rev" by code_simp
  from discovery_order_independent [OF h1 h2 h3] h1 h2 h3 h4 show ?thesis by simp
qed

lemma run_append: "run (xs @ ys) g = run ys (run xs g)"
  by (simp add: run_def)

lemma foldl_touch_stays: "c \<noteq> None \<Longrightarrow> foldl touch c ts \<noteq> None"
  by (induction ts arbitrary: c) (simp_all add: touch_def)

lemma kept_run: "kept g (run ops g)"
proof -
  have n: "k \<in> set (map fst (nodes (run ops g)))" if "k \<in> set (map fst (nodes g))" for k
  proof -
    from that have "node_attrs g k \<noteq> None" by (simp add: map_of_eq_None_iff node_attrs_def)
    then have "node_attrs (run ops g) k \<noteq> None"
      unfolding node_attrs_run by (rule foldl_touch_stays)
    then show ?thesis by (simp add: map_of_eq_None_iff node_attrs_def)
  qed
  have e: "k \<in> set (map fst (edges (run ops g)))" if "k \<in> set (map fst (edges g))" for k
  proof -
    obtain u v where k: "k = (u, v)" by (cases k)
    from that have "edge_attrs g u v \<noteq> None" by (simp add: map_of_eq_None_iff edge_attrs_def k)
    then have "edge_attrs (run ops g) u v \<noteq> None"
      unfolding edge_attrs_run by (rule foldl_touch_stays)
    then show ?thesis by (simp add: map_of_eq_None_iff edge_attrs_def k)
  qed
  from n e show ?thesis unfolding kept_def by blast
qed

lemma take_split: "i \<le> j \<Longrightarrow> take j xs = take i xs @ drop i (take j xs)"
  by (metis append_take_drop_id min.absorb1 take_take)

lemma dict_update_present:
  "\<forall>kv \<in> set t. map_of d (fst kv) = Some (snd kv) \<Longrightarrow> dict_update d t = d"
proof (induction t)
  case Nil
  show ?case by simp
next
  case (Cons kv t)
  have step: "dict_update d (kv # t) = dict_update (AList.update (fst kv) (snd kv) d) t"
    by (simp add: dict_update_def)
  from Cons.prems have "AList.update (fst kv) (snd kv) d = d" by (simp add: update_triv)
  with Cons step show ?case by simp
qed

lemma dict_update_idem:
  assumes "distinct (map fst t)"
  shows "dict_update (dict_update d t) t = dict_update d t"
proof (rule dict_update_present)
  show "\<forall>kv \<in> set t. map_of (dict_update d t) (fst kv) = Some (snd kv)"
  proof
    fix kv assume "kv \<in> set t"
    with assms have "map_of t (fst kv) = Some (snd kv)" by simp
    then show "map_of (dict_update d t) (fst kv) = Some (snd kv)"
      by (simp add: map_of_dict_update [OF assms])
  qed
qed

lemma good_append: "good xs \<Longrightarrow> good ys \<Longrightarrow> good (xs @ ys)"
  by (cases xs) (auto simp add: good_def)

lemma good_concat: "\<forall>l \<in> set ls. good l \<Longrightarrow> good (concat ls)"
proof (induction ls)
  case Nil
  show ?case by (simp add: good_def)
next
  case (Cons l ls)
  then have "good l" and "good (concat ls)" by simp_all
  then have "good (l @ concat ls)" by (rule good_append)
  then show ?case by simp
qed

lemma distinct_tables_fold:
  assumes "distinct (map fst (pf_classes pf))" "distinct (map fst (pf_functions pf))"
  shows "distinct (map fst (pf_classes (fold index_stmt body pf))) \<and>
         distinct (map fst (pf_functions (fold index_stmt body pf)))"
  using assms
proof (induction body arbitrary: pf)
  case Nil
  then show ?case by simp
next
  case (Cons s body)
  have "distinct (map fst (pf_classes (index_stmt s pf))) \<and>
        distinct (map fst (pf_functions (index_stmt s pf)))"
    using Cons.prems by (cases s) (auto simp add: distinct_update split: option.splits)
  with Cons.IH [of "index_stmt s pf"] show ?case by simp
qed

lemma distinct_tables:
  "distinct (map fst (pf_classes (index_body rel body)))"
  "distinct (map fst (pf_functions (index_body rel body)))"
  using distinct_tables_fold [of
      "\<lparr>pf_path = rel, pf_ast_tree = body, pf_functions = [], pf_classes = [],
        pf_imports = [], pf_from_imports = []\<rparr>" body]
  by (simp_all add: index_body_def)

lemma add_node_origin_table:
  assumes "AddNode k a \<in> set (parse_ops w fs)"
  shows "(k \<in> set (py_files w) \<and> a = file_kwargs k) \<or>
         (\<exists>rel body c. rel \<in> set (py_files w) \<and> fs rel = Some body \<and> k = decl_id rel (fst c) \<and>
            ((c \<in> set (pf_classes (index_body rel body)) \<and> a = class_kwargs rel c) \<or>
             (c \<in> set (pf_functions (index_body rel body)) \<and> a = function_kwargs rel c)))"
proof -
  let ?files = "parsed_files w fs"
  from assms consider
      (col) "AddNode k a \<in> set (collect_files w)"
    | (add) "AddNode k a \<in> set (add_nodes_and_edges ?files)"
    unfolding parse_ops_def by (auto simp add: resolve_calls_basic_mem file_call_ops_mem)
  then show ?thesis
  proof cases
    case col
    then show ?thesis by (auto simp add: collect_files_mem)
  next
    case add
    then obtain x where x: "x \<in> set ?files" and m: "AddNode k a \<in> set (file_ops ?files x)"
      unfolding add_nodes_and_edges_mem by blast
    obtain rel pf where xp: "x = (rel, pf)" by (cases x)
    from x xp obtain body where rel: "rel \<in> set (py_files w)" and body: "fs rel = Some body"
      and pf: "pf = index_body rel body" by (auto simp add: parsed_files_mem)
    from m consider
        (cls) c where "c \<in> set (pf_classes pf)" "k = decl_id rel (fst c)" "a = class_kwargs rel c"
      | (fn) f where "f \<in> set (pf_functions pf)" "k = decl_id rel (fst f)" "a = function_kwargs rel f"
      unfolding xp file_ops_mem by auto
    then show ?thesis
    proof cases
      case cls
      with rel body pf show ?thesis by blast
    next
      case fn
      with rel body pf show ?thesis by blast
    qed
  qed
qed

lemma table_declared:
  assumes "rel \<in> set (py_files w)" "fs rel = Some body"
    and "c \<in> set (pf_classes (index_body rel body)) \<or> c \<in> set (pf_functions (index_body rel body))"
  shows "declared w fs rel (fst c)"
  unfolding declared_def using assms by force

lemma same_key_entry:
  assumes "distinct (map fst xs)" "x \<in> set xs" "y \<in> set xs" "fst x = fst y"
  shows "x = y"
proof -
  obtain k v where x: "x = (k, v)" by (cases x)
  obtain k' v' where y: "y = (k', v')" by (cases y)
  from assms show ?thesis unfolding x y by (auto dest: eq_key_imp_eq_value)
qed

lemma add_node_unique:
  assumes ok: "names_ok w fs" and nc: "no_clash w fs"
    and a1: "AddNode k a \<in> set (parse_ops w fs)" and a2: "AddNode k a' \<in> set (parse_ops w fs)"
  shows "a = a'"
proof -
  from add_node_origin_table [OF a1] consider
      (file1) "k \<in> set (py_files w)" "a = file_kwargs k"
    | (decl1) r1 b1 c1 where "r1 \<in> set (py_files w)" "fs r1 = Some b1" "k = decl_id r1 (fst c1)"
        "(c1 \<in> set (pf_classes (index_body r1 b1)) \<and> a = class_kwargs r1 c1) \<or>
         (c1 \<in> set (pf_functions (index_body r1 b1)) \<and> a = function_kwargs r1 c1)"
    by blast
  then show ?thesis
  proof cases
    case file1
    from add_node_origin_table [OF a2] consider
        (file2) "a' = file_kwargs k"
      | (decl2) r2 b2 c2 where "r2 \<in> set (py_files w)" "fs r2 = Some b2" "k = decl_id r2 (fst c2)"
          "c2 \<in> set (pf_classes (index_body r2 b2)) \<or> c2 \<in> set (pf_functions (index_body r2 b2))"
      by blast
    then show ?thesis
    proof cases
      case file2
      with file1 show ?thesis by simp
    next
      case decl2
      from table_declared [of r2 w fs b2 c2, OF decl2(1,2,4)] have "declared w fs r2 (fst c2)" .
      from declared_not_file [OF ok this] decl2(3) file1(1) show ?thesis by simp
    qed
  next
    case decl1
    from decl1(4) have m1: "c1 \<in> set (pf_classes (index_body r1 b1)) \<or>
        c1 \<in> set (pf_functions (index_body r1 b1))" by blast
    have d1: "declared w fs r1 (fst c1)" by (rule table_declared [of r1 w fs b1 c1, OF decl1(1,2) m1])
    from add_node_origin_table [OF a2] declared_not_file [OF ok d1] decl1(3)
    obtain r2 b2 c2 where r2: "r2 \<in> set (py_files w)" and b2: "fs r2 = Some b2"
      and k2: "k = decl_id r2 (fst c2)"
      and t2: "(c2 \<in> set (pf_classes (index_body r2 b2)) \<and> a' = class_kwargs r2 c2) \<or>
         (c2 \<in> set (pf_functions (index_body r2 b2)) \<and> a' = function_kwargs r2 c2)"
      by blast
    from t2 have m2: "c2 \<in> set (pf_classes (index_body r2 b2)) \<or>
        c2 \<in> set (pf_functions (index_body r2 b2))" by blast
    have d2: "declared w fs r2 (fst c2)" by (rule table_declared [of r2 w fs b2 c2, OF r2 b2 m2])
    from decl1(3) k2 have "decl_id r1 (fst c1) = decl_id r2 (fst c2)" by simp
    from decl_id_inj [OF declared_valid [OF ok d1] declared_valid [OF ok d2] this]
    have r: "r1 = r2" and f: "fst c1 = fst c2" by simp_all
    from r decl1(2) b2 have b: "b1 = b2" by simp
    let ?pf = "index_body r1 b1"
    from nc decl1(1,2) have disj: "fst ` set (pf_classes ?pf) \<inter> fst ` set (pf_functions ?pf) = {}"
      unfolding no_clash_def by force
    from decl1(4) show ?thesis
    proof
      assume c: "c1 \<in> set (pf_classes ?pf) \<and> a = class_kwargs r1 c1"
      from t2 show ?thesis
      proof
        assume c': "c2 \<in> set (pf_classes (index_body r2 b2)) \<and> a' = class_kwargs r2 c2"
        with r b have "c2 \<in> set (pf_classes ?pf)" by simp
        from same_key_entry [OF distinct_tables(1) _ this f] c have "c1 = c2" by simp
        with c c' r show ?thesis by simp
      next
        assume c': "c2 \<in> set (pf_functions (index_body r2 b2)) \<and> a' = function_kwargs r2 c2"
        with r b have "fst c2 \<in> fst ` set (pf_functions ?pf)" by simp
        moreover from c have "fst c1 \<in> fst ` set (pf_classes ?pf)" by simp
        ultimately show ?thesis using disj f by auto
      qed
    next
      assume c: "c1 \<in> set (pf_functions ?pf) \<and> a = function_kwargs r1 c1"
      from t2 show ?thesis
      proof
        assume c': "c2 \<in> set (pf_classes (index_body r2 b2)) \<and> a' = class_kwargs r2 c2"
        with r b have "fst c2 \<in> fst ` set (pf_classes ?pf)" by simp
        moreover from c have "fst c1 \<in> fst ` set (pf_functions ?pf)" by simp
        ultimately show ?thesis using disj f by auto
      next
        assume c': "c2 \<in> set (pf_functions (index_body r2 b2)) \<and> a' = function_kwargs r2 c2"
        with r b have "c2 \<in> set (pf_functions ?pf)" by simp
        from same_key_entry [OF distinct_tables(2) _ this f] c have "c1 = c2" by simp
        with c c' r show ?thesis by simp
      qed
    qed
  qed
qed

lemma kwargs_nonempty:
  "file_kwargs rel \<noteq> []" "class_kwargs rel c \<noteq> []" "function_kwargs rel c \<noteq> []"
  "distinct (map fst (file_kwargs rel))"
  by (simp_all add: file_kwargs_def class_kwargs_def function_kwargs_def Let_def)

lemma node_proj_class_ops:
  "k \<noteq> rel \<Longrightarrow> node_proj k (class_ops rel c) =
     (if decl_id rel (fst c) = k then [class_kwargs rel c, []] else [])"
  by (simp add: class_ops_eq node_proj_def)

lemma node_proj_function_ops:
  "k \<noteq> rel \<Longrightarrow> node_proj k (function_ops rel c) =
     (if decl_id rel (fst c) = k then [function_kwargs rel c, []] else [])"
  by (simp add: function_ops_eq node_proj_def)

lemma good_block:
  assumes nf: "k \<notin> set (py_files w)" and x: "(rel, pf) \<in> set (parsed_files w fs)"
  shows "good (node_proj k (file_ops (parsed_files w fs) (rel, pf)))"
proof -
  let ?F = "parsed_files w fs"
  from x have rel: "rel \<in> set (py_files w)" by (simp add: parsed_files_mem)
  with nf have kr: "k \<noteq> rel" by auto
  have c: "good (node_proj k (concat (map (class_ops rel) (pf_classes pf))))"
    unfolding node_proj_concat
    by (rule good_concat) (auto simp add: node_proj_class_ops [OF kr] good_def kwargs_nonempty)
  have f: "good (node_proj k (concat (map (function_ops rel) (pf_functions pf))))"
    unfolding node_proj_concat
    by (rule good_concat) (auto simp add: node_proj_function_ops [OF kr] good_def kwargs_nonempty)
  have "node_proj k (import_ops (map fst ?F) rel m) = []" for m
  proof -
    have "k \<notin> op_keys op" if "op \<in> set (import_ops (map fst ?F) rel m)" for op
    proof -
      from that obtain q where q: "find (\<lambda>other. basename other = m @ ''.py'') (map fst ?F) = Some q"
        and op: "op = AddEdge rel q (lbl ''file_import'')" unfolding import_ops_mem by blast
      from find_mem [OF q] have "q \<in> set (py_files w)" by (simp add: analysed_keys analysed_mem)
      with nf kr op show ?thesis by auto
    qed
    then show ?thesis by (simp add: node_proj_Nil_iff)
  qed
  then have i: "node_proj k (concat (map (import_ops (map fst ?F) rel) (module_names pf))) = []"
    unfolding node_proj_concat by (simp add: concat_map_none)
  from c f i show ?thesis
    by (simp add: file_ops_def Let_def good_append)
qed

lemma first_touch_good: "good (node_proj k (parse_ops w fs))"
proof (cases "k \<in> set (py_files w)")
  case True
  let ?C = "collect_files w"
  from True have "AddNode k (file_kwargs k) \<in> set ?C" by (auto simp add: collect_files_mem)
  then have "file_kwargs k \<in> set (node_proj k ?C)" by (simp add: node_proj_mem)
  then obtain t ts where c: "node_proj k ?C = t # ts" by (cases "node_proj k ?C") auto
  then have "t \<in> set (node_proj k ?C)" by simp
  then have "t = file_kwargs k" by (auto simp add: node_proj_mem collect_files_mem)
  with c show ?thesis by (simp add: parse_ops_def good_def kwargs_nonempty)
next
  case False
  let ?F = "parsed_files w fs"
  have c: "node_proj k (collect_files w) = []"
    using False by (auto simp add: node_proj_Nil_iff collect_files_mem)
  have a: "good (node_proj k (add_nodes_and_edges ?F))"
    unfolding add_nodes_and_edges_def node_proj_concat
  proof (rule good_concat, rule ballI)
    fix l assume "l \<in> set (map (node_proj k) (map (file_ops ?F) ?F))"
    then obtain x where x: "x \<in> set ?F" and l: "l = node_proj k (file_ops ?F x)" by auto
    obtain rel pf where "x = (rel, pf)" by (cases x)
    with x l good_block [OF False] show "good l" by simp
  qed
  have r: "node_proj k (resolve_calls_basic ?F) = []" if e: "node_proj k (add_nodes_and_edges ?F) = []"
  proof (rule ccontr)
    assume "node_proj k (resolve_calls_basic ?F) \<noteq> []"
    then obtain op where op: "op \<in> set (resolve_calls_basic ?F)" and k: "k \<in> op_keys op"
      by (auto simp add: node_proj_Nil_iff)
    from op obtain x where x: "x \<in> set ?F" and m: "op \<in> set (file_call_ops x)"
      unfolding resolve_calls_basic_mem by blast
    obtain rel pf where xp: "x = (rel, pf)" by (cases x)
    from m obtain f t where f: "f \<in> set (pf_functions pf)" and t: "t \<in> fst ` set (pf_functions pf)"
      and o: "op = AddEdge (decl_id rel (fst f)) (decl_id rel t) (lbl ''calls'')"
      unfolding xp file_call_ops_mem by auto
    from t obtain f' where f': "f' \<in> set (pf_functions pf)" and tt: "t = fst f'" by auto
    from o k tt have "k = decl_id rel (fst f) \<or> k = decl_id rel (fst f')" by auto
    with f f' obtain f'' where f'': "f'' \<in> set (pf_functions pf)" and kk: "k = decl_id rel (fst f'')"
      by blast
    from f'' have "AddNode k (function_kwargs rel f'') \<in> set (file_ops ?F (rel, pf))"
      unfolding file_ops_mem kk by blast
    with x xp have "AddNode k (function_kwargs rel f'') \<in> set (add_nodes_and_edges ?F)"
      unfolding add_nodes_and_edges_mem by blast
    then have "function_kwargs rel f'' \<in> set (node_proj k (add_nodes_and_edges ?F))"
      by (simp add: node_proj_mem)
    with e show False by simp
  qed
  show ?thesis
  proof (cases "node_proj k (add_nodes_and_edges ?F) = []")
    case True
    with r c show ?thesis by (simp add: parse_ops_def good_def)
  next
    case False
    with a c show ?thesis by (auto simp add: parse_ops_def good_def)
  qed
qed

lemma node_proj_mono: "set xs \<subseteq> set ys \<Longrightarrow> set (node_proj k xs) \<subseteq> set (node_proj k ys)"
  by (auto simp add: node_proj_mem) blast+

lemma edge_proj_mono: "set xs \<subseteq> set ys \<Longrightarrow> set (edge_proj e xs) \<subseteq> set (edge_proj e ys)"
  by (auto simp add: edge_proj_mem)

lemma nodes_preserved_prefix:
  assumes ok: "names_ok w fs" and nc: "no_clash w fs" and ij: "i \<le> j"
  shows "nodes_preserved (run (take i (parse_ops w fs)) empty_graph)
           (run (take j (parse_ops w fs)) empty_graph)"
  unfolding nodes_preserved_def
proof
  let ?ops = "parse_ops w fs"
  let ?pre = "take i ?ops" and ?post = "drop i (take j ?ops)"
  let ?g = "run ?pre empty_graph" and ?g' = "run (take j ?ops) empty_graph"
  fix x assume x: "x \<in> set (nodes ?g)"
  obtain k d where xk: "x = (k, d)" by (cases x)
  have "distinct (map fst (nodes ?g))" by (rule distinct_nodes_run) (simp add: empty_graph_def)
  with x xk have "map_of (nodes ?g) k = Some d" by simp
  then have gd: "foldl touch None (node_proj k ?pre) = Some d"
    by (simp add: node_attrs_def [symmetric] node_attrs_run)
  let ?T = "node_proj k ?ops" and ?P = "node_proj k ?pre"
  have T: "?T = ?P @ node_proj k (drop i ?ops)"
    by (simp add: node_proj_append [symmetric])
  from gd have Pne: "?P \<noteq> []" by auto
  then obtain N P' where P: "?P = N # P'" by (cases ?P) auto
  from first_touch_good [of k w fs] T P have Nne: "N \<noteq> []" by (simp add: good_def)
  have "N \<in> set ?T" using T P by simp
  with Nne have an: "AddNode k N \<in> set ?ops" by (auto simp add: node_proj_mem)
  have all: "t = [] \<or> t = N" if "t \<in> set ?T" for t
  proof -
    from that consider "AddNode k t \<in> set ?ops" | "t = []" by (auto simp add: node_proj_mem)
    then show ?thesis
    proof cases
      case 1
      from add_node_unique [OF ok nc 1 an] show ?thesis by simp
    next
      case 2
      then show ?thesis by simp
    qed
  qed
  have dN: "distinct (map fst N)"
    using add_node_origin_table [OF an] by (auto simp add: kwargs_facts kwargs_nonempty)
  let ?D = "dict_update [] N"
  have keep: "dict_update ?D t = ?D" if "t \<in> set ?T" for t
    using all [OF that] dict_update_idem [OF dN, of "[]"] by auto
  have "\<forall>t \<in> set P'. dict_update ?D t = ?D"
    using keep T P by simp
  from foldl_touch_keep [OF this] gd P have d: "d = ?D"
    by (simp add: touch_def opt_attrs_def)
  have sub: "set (node_proj k ?post) \<subseteq> set ?T"
    by (rule node_proj_mono) (meson set_drop_subset set_take_subset subset_trans)
  then have "\<forall>t \<in> set (node_proj k ?post). dict_update ?D t = ?D"
    using keep by blast
  from foldl_touch_keep [OF this] gd d
  have "foldl touch None (node_proj k (?pre @ ?post)) = Some d" by simp
  moreover have "take j ?ops = ?pre @ ?post" by (rule take_split [OF ij])
  ultimately have "node_attrs ?g' k = Some d" by (simp add: node_attrs_run)
  then show "map_of (nodes ?g') (fst x) = Some (snd x)" by (simp add: node_attrs_def xk)
qed

lemma edges_preserved_prefix:
  assumes ok: "names_ok w fs" and ij: "i \<le> j"
  shows "edges_preserved (run (take i (parse_ops w fs)) empty_graph)
           (run (take j (parse_ops w fs)) empty_graph)"
  unfolding edges_preserved_def
proof
  let ?ops = "parse_ops w fs"
  let ?pre = "take i ?ops" and ?post = "drop i (take j ?ops)"
  let ?g = "run ?pre empty_graph" and ?g' = "run (take j ?ops) empty_graph"
  fix x assume x: "x \<in> set (edges ?g)"
  obtain u v a where xk: "x = ((u, v), a)" by (cases x) auto
  have "distinct (map fst (edges ?g))" by (rule distinct_edges_run) (simp add: empty_graph_def)
  with x xk have "map_of (edges ?g) (u, v) = Some a" by simp
  then have ga: "foldl touch None (edge_proj (u, v) ?pre) = Some a"
    by (simp add: edge_attrs_def [symmetric] edge_attrs_run)
  have split: "take j ?ops = ?pre @ ?post" by (rule take_split [OF ij])
  have sub: "set (take j ?ops) \<subseteq> set ?ops" by (rule set_take_subset)
  have all: "t = lbl (edge_kind u v)" if "t \<in> set (edge_proj (u, v) (take j ?ops))" for t
  proof -
    from that edge_proj_mono [OF sub] have "t \<in> set (edge_proj (u, v) ?ops)" by blast
    then have "AddEdge u v t \<in> set ?ops" by (simp add: edge_proj_mem)
    from edge_op_kind [OF ok this] show ?thesis .
  qed
  have lb: "\<forall>t \<in> set ts. \<exists>l. t = lbl l" if "set ts \<subseteq> set (edge_proj (u, v) (take j ?ops))" for ts
    using that all by blast
  have ep: "edge_proj (u, v) (take j ?ops) = edge_proj (u, v) ?pre @ edge_proj (u, v) ?post"
    using arg_cong [OF split, of "edge_proj (u, v)"] by (simp only: edge_proj_append)
  have pre_sub: "set (edge_proj (u, v) ?pre) \<subseteq> set (edge_proj (u, v) (take j ?ops))"
    by (simp only: ep set_append Un_upper1)
  from ga have ne: "edge_proj (u, v) ?pre \<noteq> []" by auto
  from foldl_touch_lbl [OF lb [OF pre_sub]] ga ne
  have "a = last (edge_proj (u, v) ?pre)" by simp
  moreover from ne have "last (edge_proj (u, v) ?pre) \<in> set (edge_proj (u, v) ?pre)" by simp
  ultimately have a: "a = lbl (edge_kind u v)" using all pre_sub by blast
  from ne have ne': "edge_proj (u, v) (take j ?ops) \<noteq> []" by (simp only: ep) simp
  then have "last (edge_proj (u, v) (take j ?ops)) \<in> set (edge_proj (u, v) (take j ?ops))" by simp
  from all [OF this] foldl_touch_lbl [OF lb [OF subset_refl]] ne' a
  have "edge_attrs ?g' u v = Some a" by (simp add: edge_attrs_run)
  then show "map_of (edges ?g') (fst x) = Some (snd x)" by (simp add: edge_attrs_def xk)
qed

text \<open>
  A class and a function of one name in one file share the identifier \<open>a.py::Foo\<close>:
  the node is created with the attributes of the class (after the second call of the
  build) and the fourth call writes those of the function over them.
\<close>

theorem write_once_counterexample:
  "names_ok clash_walk clash_fs \<and>
   node_type (run (take 2 (parse_ops clash_walk clash_fs)) empty_graph) ''a.py::Foo''
     = Some (AStr ''class'') \<and>
   node_type (parse clash_walk clash_fs) ''a.py::Foo'' = Some (AStr ''function'') \<and>
   \<not> nodes_preserved (run (take 2 (parse_ops clash_walk clash_fs)) empty_graph)
        (parse clash_walk clash_fs) \<and>
   \<not> write_once (parse_ops clash_walk clash_fs)"
  by code_simp

text \<open>
  Claim C4, amended. Take the graph after any number \<open>i\<close> of the calls that one build
  makes on it and the graph after \<open>j \<ge> i\<close> of them (all of them give the built graph).
  Every node and every edge of the first is a node or an edge of the second; every edge
  has kept its attributes; and every node has kept its attributes provided no file
  declares a top-level class and a top-level function of the same name. Top-level names
  are taken to be Python identifiers for the two statements on attributes.
\<close>

theorem graph_write_once:
  assumes "i \<le> j"
  shows "kept (run (take i (parse_ops w fs)) empty_graph)
              (run (take j (parse_ops w fs)) empty_graph) \<and>
         (names_ok w fs \<longrightarrow>
            edges_preserved (run (take i (parse_ops w fs)) empty_graph)
                            (run (take j (parse_ops w fs)) empty_graph) \<and>
            (no_clash w fs \<longrightarrow>
               nodes_preserved (run (take i (parse_ops w fs)) empty_graph)
                               (run (take j (parse_ops w fs)) empty_graph))) \<and>
         run (take (length (parse_ops w fs)) (parse_ops w fs)) empty_graph = parse w fs"
proof (intro conjI impI)
  have "take j (parse_ops w fs) = take i (parse_ops w fs) @ drop i (take j (parse_ops w fs))"
    by (rule take_split [OF assms])
  then have "run (take j (parse_ops w fs)) empty_graph =
      run (drop i (take j (parse_ops w fs))) (run (take i (parse_ops w fs)) empty_graph)"
    by (simp only: run_append [symmetric])
  then show "kept (run (take i (parse_ops w fs)) empty_graph)
              (run (take j (parse_ops w fs)) empty_graph)"
    by (simp only: kept_run)
next
  assume "names_ok w fs"
  then show "edges_preserved (run (take i (parse_ops w fs)) empty_graph)
                            (run (take j (parse_ops w fs)) empty_graph)"
    using assms by (rule edges_preserved_prefix)
next
  assume "names_ok w fs" and "no_clash w fs"
  then show "nodes_preserved (run (take i (parse_ops w fs)) empty_graph)
                               (run (take j (parse_ops w fs)) empty_graph)"
    using assms by (rule nodes_preserved_prefix)
next
  show "run (take (length (parse_ops w fs)) (parse_ops w fs)) empty_graph = parse w fs"
    by (simp add: parse_run)
qed

theorem graph_write_once_witness:
  "names_ok test_repo_walk test_repo_fs \<and> no_clash test_repo_walk test_repo_fs \<and>
   length (parse_ops test_repo_walk test_repo_fs) = 28 \<and>
   kept (run (take 7 (parse_ops test_repo_walk test_repo_fs)) empty_graph)
        (parse test_repo_walk test_repo_fs) \<and>
   edges_preserved (run (take 7 (parse_ops test_repo_walk test_repo_fs)) empty_graph)
        (parse test_repo_walk test_repo_fs) \<and>
   nodes_preserved (run (take 7 (parse_ops test_repo_walk test_repo_fs)) empty_graph)
        (parse test_repo_walk test_repo_fs)"
proof -
  have h1: "names_ok test_repo_walk test_repo_fs" by code_simp
  have h2: "no_clash test_repo_walk test_repo_fs" by code_simp
  have h3: "length (parse_ops test_repo_walk test_repo_fs) = 28" by code_simp
  have h4: "(7::nat) \<le> length (parse_ops test_repo_walk test_repo_fs)" by (simp add: h3)
  from graph_write_once [OF h4, of test_repo_walk test_repo_fs] h1 h2 h3
  show ?thesis by (simp add: parse_run)
qed

subsection \<open>The import tables of a file\<close>

lemma index_stmt_tables:
  assumes "pf_functions pf = pf_functions pf'" "pf_classes pf = pf_classes pf'"
    "pf_imports pf = pf_imports pf'" "pf_from_imports pf = pf_from_imports pf'"
  shows "pf_functions (index_stmt s pf) = pf_functions (index_stmt s pf') \<and>
         pf_classes (index_stmt s pf) = pf_classes (index_stmt s pf') \<and>
         pf_imports (index_stmt s pf) = pf_imports (index_stmt s pf') \<and>
         pf_from_imports (index_stmt s pf) = pf_from_imports (index_stmt s pf')"
  using assms by (cases s) (simp_all split: option.splits)

lemma fold_index_stmt_tables:
  assumes "pf_functions pf = pf_functions pf'" "pf_classes pf = pf_classes pf'"
    "pf_imports pf = pf_imports pf'" "pf_from_imports pf = pf_from_imports pf'"
  shows "pf_functions (fold index_stmt body pf) = pf_functions (fold index_stmt body pf') \<and>
         pf_classes (fold index_stmt body pf) = pf_classes (fold index_stmt body pf') \<and>
         pf_imports (fold index_stmt body pf) = pf_imports (fold index_stmt body pf') \<and>
         pf_from_imports (fold index_stmt body pf) = pf_from_imports (fold index_stmt body pf')"
  using assms
proof (induction body arbitrary: pf pf')
  case Nil
  then show ?case by simp
next
  case (Cons s body)
  from index_stmt_tables [OF Cons.prems, of s]
  show ?case using Cons.IH [of "index_stmt s pf" "index_stmt s pf'"] by simp
qed

lemma index_body_skip:
  assumes "index_stmt s = (\<lambda>pf. pf)"
  shows "pf_functions (index_body rel (pre @ s # post)) = pf_functions (index_body rel (pre @ post)) \<and>
         pf_classes (index_body rel (pre @ s # post)) = pf_classes (index_body rel (pre @ post)) \<and>
         pf_imports (index_body rel (pre @ s # post)) = pf_imports (index_body rel (pre @ post)) \<and>
         pf_from_imports (index_body rel (pre @ s # post)) = pf_from_imports (index_body rel (pre @ post))"
  unfolding index_body_def
  using fold_index_stmt_tables [of
      "\<lparr>pf_path = rel, pf_ast_tree = pre @ s # post, pf_functions = [], pf_classes = [],
        pf_imports = [], pf_from_imports = []\<rparr>"
      "\<lparr>pf_path = rel, pf_ast_tree = pre @ post, pf_functions = [], pf_classes = [],
        pf_imports = [], pf_from_imports = []\<rparr>" "pre @ post"]
  by (simp add: assms)

lemma index_stmt_imports_keep:
  assumes "\<forall>names al. s = Import names \<and> al \<in> set names \<longrightarrow> import_bound al \<noteq> k"
  shows "map_of (pf_imports (index_stmt s pf)) k = map_of (pf_imports pf) k"
proof (cases s)
  case (Import names)
  with assms have "find (\<lambda>al. import_bound al = k) (rev names) = None"
    by (simp add: find_None_iff)
  with Import show ?thesis by (simp add: fold_import_lookup)
next
  case (ImportFrom module names)
  then show ?thesis by (simp split: option.splits)
qed simp_all

lemma fold_index_stmt_imports_keep:
  assumes "\<forall>names al. Import names \<in> set post \<and> al \<in> set names \<longrightarrow> import_bound al \<noteq> k"
  shows "map_of (pf_imports (fold index_stmt post pf)) k = map_of (pf_imports pf) k"
  using assms
proof (induction post arbitrary: pf)
  case Nil
  show ?case by simp
next
  case (Cons s post)
  have a: "map_of (pf_imports (index_stmt s pf)) k = map_of (pf_imports pf) k"
    by (rule index_stmt_imports_keep) (use Cons.prems in auto)
  have "map_of (pf_imports (fold index_stmt post (index_stmt s pf))) k
          = map_of (pf_imports (index_stmt s pf)) k"
    by (rule Cons.IH) (use Cons.prems in auto)
  with a show ?case by simp
qed

lemma index_stmt_from_keep:
  assumes "\<forall>m names al. s = ImportFrom (Some m) names \<and> m \<noteq> [] \<and> al \<in> set names
             \<longrightarrow> from_bound al \<noteq> k"
  shows "map_of (pf_from_imports (index_stmt s pf)) k = map_of (pf_from_imports pf) k"
proof (cases s)
  case (ImportFrom module names)
  show ?thesis
  proof (cases module)
    case None
    with ImportFrom show ?thesis by simp
  next
    case (Some m)
    show ?thesis
    proof (cases "m = []")
      case True
      with ImportFrom Some show ?thesis by simp
    next
      case False
      with assms ImportFrom Some have "k \<notin> from_bound ` set names" by auto
      with ImportFrom Some False show ?thesis by (simp add: fold_from_lookup)
    qed
  qed
qed simp_all

lemma fold_index_stmt_from_keep:
  assumes "\<forall>m names al. ImportFrom (Some m) names \<in> set post \<and> m \<noteq> [] \<and> al \<in> set names
             \<longrightarrow> from_bound al \<noteq> k"
  shows "map_of (pf_from_imports (fold index_stmt post pf)) k = map_of (pf_from_imports pf) k"
  using assms
proof (induction post arbitrary: pf)
  case Nil
  show ?case by simp
next
  case (Cons s post)
  have a: "map_of (pf_from_imports (index_stmt s pf)) k = map_of (pf_from_imports pf) k"
    by (rule index_stmt_from_keep) (use Cons.prems in auto)
  have "map_of (pf_from_imports (fold index_stmt post (index_stmt s pf))) k
          = map_of (pf_from_imports (index_stmt s pf)) k"
    by (rule Cons.IH) (use Cons.prems in auto)
  with a show ?case by simp
qed

lemma distinct_fold_import:
  "distinct (map fst im) \<Longrightarrow> distinct (map fst (fold index_import_alias names im))"
  by (induction names arbitrary: im) (simp_all add: index_import_alias_def Let_def distinct_update)

lemma distinct_fold_from:
  "distinct (map fst fi) \<Longrightarrow> distinct (map fst (fold (index_from_alias modl) names fi))"
  by (induction names arbitrary: fi) (simp_all add: index_from_alias_def Let_def distinct_update)

lemma distinct_index_stmt:
  assumes "distinct (map fst (pf_imports pf))" "distinct (map fst (pf_from_imports pf))"
  shows "distinct (map fst (pf_imports (index_stmt s pf))) \<and>
         distinct (map fst (pf_from_imports (index_stmt s pf)))"
  using assms by (cases s) (simp_all add: distinct_fold_import distinct_fold_from split: option.splits)

lemma distinct_fold_index_stmt:
  assumes "distinct (map fst (pf_imports pf))" "distinct (map fst (pf_from_imports pf))"
  shows "distinct (map fst (pf_imports (fold index_stmt body pf))) \<and>
         distinct (map fst (pf_from_imports (fold index_stmt body pf)))"
  using assms
proof (induction body arbitrary: pf)
  case Nil
  then show ?case by simp
next
  case (Cons s body)
  from distinct_index_stmt [OF Cons.prems, of s]
  show ?case using Cons.IH [of "index_stmt s pf"] by simp
qed

lemma index_body_distinct:
  "distinct (map fst (pf_imports (index_body rel body))) \<and>
   distinct (map fst (pf_from_imports (index_body rel body)))"
  unfolding index_body_def by (rule distinct_fold_index_stmt) simp_all

lemma index_body_split:
  "index_body rel (pre @ s # post) =
     fold index_stmt post (index_stmt s (fold index_stmt pre
       \<lparr>pf_path = rel, pf_ast_tree = pre @ s # post, pf_functions = [], pf_classes = [],
        pf_imports = [], pf_from_imports = []\<rparr>))"
  by (simp add: index_body_def)

lemma find_app:
  "find P (xs @ ys) = (case find P xs of None \<Rightarrow> find P ys | Some x \<Rightarrow> Some x)"
  by (induction xs) simp_all

lemma import_last_binding:
  assumes "\<forall>al' \<in> set ns2. import_bound al' \<noteq> import_bound al"
    and "\<forall>names' al'. Import names' \<in> set post \<and> al' \<in> set names'
           \<longrightarrow> import_bound al' \<noteq> import_bound al"
  shows "map_of (pf_imports (index_body rel (pre @ Import (ns1 @ al # ns2) # post))) (import_bound al)
           = Some (split_dot_0 (alias_name al))"
proof -
  have "find (\<lambda>y. import_bound y = import_bound al) (rev ns2) = None"
    using assms(1) by (simp add: find_None_iff)
  then have f: "find (\<lambda>y. import_bound y = import_bound al) (rev (ns1 @ al # ns2)) = Some al"
    by (simp add: find_app)
  have g: "map_of (fold index_import_alias (ns1 @ al # ns2) im) (import_bound al)
             = Some (split_dot_0 (alias_name al))" for im
    unfolding fold_import_lookup f by simp
  have s: "pf_imports (index_stmt (Import ns) pf) = fold index_import_alias ns (pf_imports pf)"
    for ns pf by simp
  show ?thesis
    unfolding index_body_split fold_index_stmt_imports_keep [OF assms(2)] s g ..
qed

lemma from_last_binding:
  assumes "m \<noteq> []" "al \<in> set names"
    and "\<forall>m' names' al'. ImportFrom (Some m') names' \<in> set post \<and> m' \<noteq> [] \<and> al' \<in> set names'
           \<longrightarrow> from_bound al' \<noteq> from_bound al"
  shows "map_of (pf_from_imports (index_body rel (pre @ ImportFrom (Some m) names # post))) (from_bound al)
           = Some (split_dot_0 m)"
  unfolding index_body_split
  using assms(1,2)
  by (simp add: fold_index_stmt_from_keep [OF assms(3)] fold_from_lookup)

lemma parsed_files_lookup:
  assumes "rel \<in> set (py_files w)" and "fs rel = Some body"
  shows "map_of (parsed_files w fs) rel = Some (index_body rel body)"
proof -
  have "(rel, index_body rel body) \<in> set (parsed_files w fs)"
    using assms by (simp add: parsed_files_mem)
  then show ?thesis
    using distinct_parsed_files [of w fs] by simp
qed

lemma split_dot_0_id: "CHR ''.'' \<notin> set a \<Longrightarrow> split_dot_0 a = a"
  by (auto simp add: split_dot_0_def takeWhile_eq_all_conv)

section \<open>Import extraction\<close>

text \<open>
  Claim C8. Let \<open>rel\<close> be a discovered file that parses, with the top-level statements
  \<open>body\<close>. The analyser keeps for it the record \<open>index_body rel body\<close>, and the two
  import tables of that record are as follows.

  Plain imports: an alias of a top-level \<open>import\<close> statement binds the local name
  \<open>import_bound\<close>, its as-name, otherwise the first dotted segment of the imported
  path; the table of plain imports maps that name to the first dotted segment of the
  imported path, unless a later alias of a top-level plain import binds the same local
  name (then the later one stays, as in a dict). So \<open>import pkg.sub\<close> records \<open>pkg\<close>
  under \<open>pkg\<close>.

  From-imports: an alias of a top-level \<open>from m import ...\<close> with a module binds
  \<open>from_bound\<close>, its as-name, otherwise the imported name; the table of from-imports
  maps that name to the first dotted segment of \<open>m\<close>, unless a later from-import with a
  module binds the same name.

  A from-import without module contributes nothing: taking the statement out of the
  file leaves all four tables of the record as they are.

  Nothing else is in the two tables: every entry comes from an alias of a top-level
  statement of the respective kind, and no local name occurs twice. The first dotted
  segment of \<open>a.b\<close>, where \<open>a\<close> has no dot, is \<open>a\<close>, and of a path without dot the path
  itself.
\<close>

theorem import_extraction:
  assumes "rel \<in> set (py_files w)" and "fs rel = Some body"
  shows
    "map_of (parsed_files w fs) rel = Some (index_body rel body) \<and>
     (body = pre @ Import (nsa @ al # nsb) # post \<and>
      (\<forall>al' \<in> set nsb. import_bound al' \<noteq> import_bound al) \<and>
      (\<forall>names' al'. Import names' \<in> set post \<and> al' \<in> set names'
         \<longrightarrow> import_bound al' \<noteq> import_bound al) \<longrightarrow>
        map_of (pf_imports (index_body rel body)) (import_bound al)
          = Some (split_dot_0 (alias_name al))) \<and>
     (body = fpre @ ImportFrom (Some m) fnames # fpost \<and> m \<noteq> [] \<and> fal \<in> set fnames \<and>
      (\<forall>m' names' al'. ImportFrom (Some m') names' \<in> set fpost \<and> m' \<noteq> [] \<and> al' \<in> set names'
         \<longrightarrow> from_bound al' \<noteq> from_bound fal) \<longrightarrow>
        map_of (pf_from_imports (index_body rel body)) (from_bound fal) = Some (split_dot_0 m)) \<and>
     (body = rpre @ ImportFrom mo rnames # rpost \<and> (mo = None \<or> mo = Some []) \<longrightarrow>
        pf_imports (index_body rel body) = pf_imports (index_body rel (rpre @ rpost)) \<and>
        pf_from_imports (index_body rel body) = pf_from_imports (index_body rel (rpre @ rpost)) \<and>
        pf_functions (index_body rel body) = pf_functions (index_body rel (rpre @ rpost)) \<and>
        pf_classes (index_body rel body) = pf_classes (index_body rel (rpre @ rpost))) \<and>
     set (pf_imports (index_body rel body)) \<subseteq>
       {(import_bound al', split_dot_0 (alias_name al')) | al' names'.
          Import names' \<in> set body \<and> al' \<in> set names'} \<and>
     set (pf_from_imports (index_body rel body)) \<subseteq>
       {(from_bound al', split_dot_0 m') | al' names' m'.
          ImportFrom (Some m') names' \<in> set body \<and> m' \<noteq> [] \<and> al' \<in> set names'} \<and>
     distinct (map fst (pf_imports (index_body rel body))) \<and>
     distinct (map fst (pf_from_imports (index_body rel body))) \<and>
     (CHR ''.'' \<notin> set a \<longrightarrow> split_dot_0 (a @ ''.'' @ b) = a \<and> split_dot_0 a = a) \<and>
     import_bound (Alias n None) = split_dot_0 n \<and>
     from_bound (Alias n None) = n \<and>
     (s \<noteq> [] \<longrightarrow> import_bound (Alias n (Some s)) = s \<and> from_bound (Alias n (Some s)) = s)"
proof -
  let ?init = "\<lparr>pf_path = rel, pf_ast_tree = body, pf_functions = [], pf_classes = [],
        pf_imports = [], pf_from_imports = []\<rparr>"
  have c1: "map_of (parsed_files w fs) rel = Some (index_body rel body)"
    using assms by (rule parsed_files_lookup)
  have c2: "map_of (pf_imports (index_body rel body)) (import_bound al)
          = Some (split_dot_0 (alias_name al))"
    if "body = pre @ Import (nsa @ al # nsb) # post \<and>
      (\<forall>al' \<in> set nsb. import_bound al' \<noteq> import_bound al) \<and>
      (\<forall>names' al'. Import names' \<in> set post \<and> al' \<in> set names'
         \<longrightarrow> import_bound al' \<noteq> import_bound al)"
    using that import_last_binding [of nsb al post rel pre nsa] by simp
  have c3: "map_of (pf_from_imports (index_body rel body)) (from_bound fal) = Some (split_dot_0 m)"
    if "body = fpre @ ImportFrom (Some m) fnames # fpost \<and> m \<noteq> [] \<and> fal \<in> set fnames \<and>
      (\<forall>m' names' al'. ImportFrom (Some m') names' \<in> set fpost \<and> m' \<noteq> [] \<and> al' \<in> set names'
         \<longrightarrow> from_bound al' \<noteq> from_bound fal)"
    using that from_last_binding [of m fal fnames fpost rel fpre] by simp
  have c4: "pf_imports (index_body rel body) = pf_imports (index_body rel (rpre @ rpost)) \<and>
        pf_from_imports (index_body rel body) = pf_from_imports (index_body rel (rpre @ rpost)) \<and>
        pf_functions (index_body rel body) = pf_functions (index_body rel (rpre @ rpost)) \<and>
        pf_classes (index_body rel body) = pf_classes (index_body rel (rpre @ rpost))"
    if h: "body = rpre @ ImportFrom mo rnames # rpost \<and> (mo = None \<or> mo = Some [])"
  proof -
    from h have "index_stmt (ImportFrom mo rnames) = (\<lambda>pf. pf)" by auto
    from index_body_skip [OF this, of rel rpre rpost] h show ?thesis by simp
  qed
  have c5: "set (pf_imports (index_body rel body)) \<subseteq>
       {(import_bound al', split_dot_0 (alias_name al')) | al' names'.
          Import names' \<in> set body \<and> al' \<in> set names'}"
    using fold_index_stmt_imports_entries [of body ?init] by (simp add: index_body_def)
  have c6: "set (pf_from_imports (index_body rel body)) \<subseteq>
       {(from_bound al', split_dot_0 m') | al' names' m'.
          ImportFrom (Some m') names' \<in> set body \<and> m' \<noteq> [] \<and> al' \<in> set names'}"
    using fold_index_stmt_from_entries [of body ?init] by (simp add: index_body_def)
  have c7: "CHR ''.'' \<notin> set a \<longrightarrow> split_dot_0 (a @ ''.'' @ b) = a \<and> split_dot_0 a = a"
    using split_dot_0_append [of a b] split_dot_0_id [of a] by simp
  have c8: "import_bound (Alias n None) = split_dot_0 n \<and> from_bound (Alias n None) = n \<and>
     (s \<noteq> [] \<longrightarrow> import_bound (Alias n (Some s)) = s \<and> from_bound (Alias n (Some s)) = s)"
    by (simp add: import_bound_def from_bound_def str_or_def)
  from c1 c2 c3 c4 c5 c6 c7 c8 index_body_distinct [of rel body]
  show ?thesis by blast
qed

theorem import_extraction_witness:
  "''a.py'' \<in> set (py_files imports_walk) \<and> imports_fs ''a.py'' = Some imports_body \<and>
   map_of (parsed_files imports_walk imports_fs) ''a.py'' = Some (index_body ''a.py'' imports_body) \<and>
   map_of (pf_imports (index_body ''a.py'' imports_body)) ''pkg'' = Some ''pkg'' \<and>
   map_of (pf_imports (index_body ''a.py'' imports_body)) ''p'' = Some ''q'' \<and>
   map_of (pf_from_imports (index_body ''a.py'' imports_body)) ''f'' = Some ''x'' \<and>
   map_of (pf_from_imports (index_body ''a.py'' imports_body)) ''h'' = Some ''x'' \<and>
   pf_from_imports (index_body ''a.py'' imports_body)
     = pf_from_imports (index_body ''a.py'' (take 3 imports_body @ drop 4 imports_body)) \<and>
   split_dot_0 ''pkg.sub'' = ''pkg'' \<and>
   pf_imports (index_body ''a.py'' imports_body) = [(''pkg'', ''pkg''), (''p'', ''q'')] \<and>
   pf_from_imports (index_body ''a.py'' imports_body) = [(''f'', ''x''), (''h'', ''x'')]"
proof -
  let ?s1 = "FunctionDef ''f'' [] (Some 2) (Some 3) None [Import [Alias ''json'' None]]"
  let ?s2 = "ImportFrom (Some ''x.y'') [Alias ''f'' None, Alias ''g'' (Some ''h'')]"
  let ?s3 = "ImportFrom None [Alias ''z'' None]"
  let ?s4 = "Import [Alias ''q.r'' (Some ''p'')]"
  let ?s0 = "Import [Alias ''pkg.sub'' None, Alias ''os.path'' (Some ''p'')]"
  have h1: "''a.py'' \<in> set (py_files imports_walk)" by code_simp
  have h2: "imports_fs ''a.py'' = Some imports_body" by (simp add: imports_fs_def)
  have t1: "pf_imports (index_body ''a.py'' imports_body) = [(''pkg'', ''pkg''), (''p'', ''q'')]"
    by code_simp
  have t2: "pf_from_imports (index_body ''a.py'' imports_body) = [(''f'', ''x''), (''h'', ''x'')]"
    by code_simp
  have b: "import_bound (Alias ''pkg.sub'' None) = ''pkg''"
    "import_bound (Alias ''os.path'' (Some ''p'')) = ''p''"
    "import_bound (Alias ''q.r'' (Some ''p'')) = ''p''"
    "from_bound (Alias ''f'' None) = ''f''" "from_bound (Alias ''g'' (Some ''h'')) = ''h''"
    "split_dot_0 ''pkg.sub'' = ''pkg''" "split_dot_0 ''q.r'' = ''q''" "split_dot_0 ''x.y'' = ''x''"
    by (simp_all add: import_bound_def from_bound_def str_or_def split_dot_0_def)
  have e: "take 3 imports_body @ drop 4 imports_body = [?s0, ?s1, ?s2] @ [?s4]"
    by (simp add: imports_body_def)
  note A = import_extraction [where rel = "''a.py''" and w = imports_walk and fs = imports_fs
      and body = imports_body and pre = "[]" and nsa = "[]"
      and al = "Alias ''pkg.sub'' None" and nsb = "[Alias ''os.path'' (Some ''p'')]"
      and post = "[?s1, ?s2, ?s3, ?s4]"
      and fpre = "[?s0, ?s1]" and m = "''x.y''"
      and fnames = "[Alias ''f'' None, Alias ''g'' (Some ''h'')]"
      and fal = "Alias ''g'' (Some ''h'')" and fpost = "[?s3, ?s4]"
      and rpre = "[?s0, ?s1, ?s2]" and mo = None and rnames = "[Alias ''z'' None]"
      and rpost = "[?s4]" and a = "''pkg''" and b = "''sub''" and n = "''g''" and s = "''h''",
      OF h1 h2]
  note B = import_extraction [where rel = "''a.py''" and w = imports_walk and fs = imports_fs
      and body = imports_body and pre = "[?s0, ?s1, ?s2, ?s3]" and nsa = "[]"
      and al = "Alias ''q.r'' (Some ''p'')" and nsb = "[]" and post = "[]"
      and fpre = "[?s0, ?s1]" and m = "''x.y''"
      and fnames = "[Alias ''f'' None, Alias ''g'' (Some ''h'')]"
      and fal = "Alias ''f'' None" and fpost = "[?s3, ?s4]"
      and rpre = "[?s0, ?s1, ?s2]" and mo = None and rnames = "[Alias ''z'' None]"
      and rpost = "[?s4]" and a = "''pkg''" and b = "''sub''" and n = "''g''" and s = "''h''",
      OF h1 h2]
  have r1: "map_of (parsed_files imports_walk imports_fs) ''a.py''
              = Some (index_body ''a.py'' imports_body)"
    using A [THEN conjunct1] .
  have p1: "imports_body = [] @ Import ([] @ Alias ''pkg.sub'' None # [Alias ''os.path'' (Some ''p'')])
              # [?s1, ?s2, ?s3, ?s4]"
    by (simp add: imports_body_def)
  have p2: "\<forall>al' \<in> set [Alias ''os.path'' (Some ''p'')].
              import_bound al' \<noteq> import_bound (Alias ''pkg.sub'' None)"
    by (simp add: b)
  have p3: "\<forall>names' al'. Import names' \<in> set [?s1, ?s2, ?s3, ?s4] \<and> al' \<in> set names'
              \<longrightarrow> import_bound al' \<noteq> import_bound (Alias ''pkg.sub'' None)"
    by (auto simp add: b)
  from A [THEN conjunct2, THEN conjunct1] p1 p2 p3
  have "map_of (pf_imports (index_body ''a.py'' imports_body)) (import_bound (Alias ''pkg.sub'' None))
          = Some (split_dot_0 (alias_name (Alias ''pkg.sub'' None)))"
    by blast
  then have r2: "map_of (pf_imports (index_body ''a.py'' imports_body)) ''pkg'' = Some ''pkg''"
    by (simp add: b)
  have q1: "imports_body = [?s0, ?s1, ?s2, ?s3] @ Import ([] @ Alias ''q.r'' (Some ''p'') # []) # []"
    by (simp add: imports_body_def)
  have q2: "\<forall>al' \<in> set []. import_bound al' \<noteq> import_bound (Alias ''q.r'' (Some ''p''))"
    by simp
  have q3: "\<forall>names' al'. Import names' \<in> set [] \<and> al' \<in> set names'
              \<longrightarrow> import_bound al' \<noteq> import_bound (Alias ''q.r'' (Some ''p''))"
    by simp
  from B [THEN conjunct2, THEN conjunct1] q1 q2 q3
  have "map_of (pf_imports (index_body ''a.py'' imports_body)) (import_bound (Alias ''q.r'' (Some ''p'')))
          = Some (split_dot_0 (alias_name (Alias ''q.r'' (Some ''p''))))"
    by blast
  then have r3: "map_of (pf_imports (index_body ''a.py'' imports_body)) ''p'' = Some ''q''"
    by (simp add: b)
  have f1: "imports_body = [?s0, ?s1] @ ImportFrom (Some ''x.y'') [Alias ''f'' None, Alias ''g'' (Some ''h'')]
              # [?s3, ?s4]"
    by (simp add: imports_body_def)
  have f2: "''x.y'' \<noteq> []" by simp
  have f3: "Alias ''f'' None \<in> set [Alias ''f'' None, Alias ''g'' (Some ''h'')]"
    "Alias ''g'' (Some ''h'') \<in> set [Alias ''f'' None, Alias ''g'' (Some ''h'')]"
    by simp_all
  have f4: "\<forall>m' names' al'. ImportFrom (Some m') names' \<in> set [?s3, ?s4] \<and> m' \<noteq> [] \<and> al' \<in> set names'
              \<longrightarrow> from_bound al' \<noteq> from_bound fal" for fal
    by simp
  from B [THEN conjunct2, THEN conjunct2, THEN conjunct1] f1 f2 f3(1) f4
  have "map_of (pf_from_imports (index_body ''a.py'' imports_body)) (from_bound (Alias ''f'' None))
          = Some (split_dot_0 ''x.y'')"
    by blast
  then have r4: "map_of (pf_from_imports (index_body ''a.py'' imports_body)) ''f'' = Some ''x''"
    by (simp add: b)
  from A [THEN conjunct2, THEN conjunct2, THEN conjunct1] f1 f2 f3(2) f4
  have "map_of (pf_from_imports (index_body ''a.py'' imports_body)) (from_bound (Alias ''g'' (Some ''h'')))
          = Some (split_dot_0 ''x.y'')"
    by blast
  then have r5: "map_of (pf_from_imports (index_body ''a.py'' imports_body)) ''h'' = Some ''x''"
    by (simp add: b)
  have g1: "imports_body = [?s0, ?s1, ?s2] @ ImportFrom None [Alias ''z'' None] # [?s4]"
    by (simp add: imports_body_def)
  from A [THEN conjunct2, THEN conjunct2, THEN conjunct2, THEN conjunct1] g1
  have "pf_from_imports (index_body ''a.py'' imports_body)
     = pf_from_imports (index_body ''a.py'' ([?s0, ?s1, ?s2] @ [?s4]))"
    by blast
  then have r6: "pf_from_imports (index_body ''a.py'' imports_body)
     = pf_from_imports (index_body ''a.py'' (take 3 imports_body @ drop 4 imports_body))"
    unfolding e .
  from h1 h2 r1 r2 r3 r4 r5 r6 b(6) t1 t2 show ?thesis by simp
qed

end
